theory Spec2Isabelle
  imports Main "HOL-Library.Sublist"
begin

section \<open>The CDC engine of \<^verbatim>\<open>src/services/base-cdc.service.ts\<close>\<close>

text \<open>
  The class \<^verbatim>\<open>BaseCdcService\<close> is embedded as a record of its fields and one function
  per method. Everything the class calls that is not part of it is an environment:
  the store (\<^verbatim>\<open>model.watch\<close>, \<^verbatim>\<open>changeStream.close\<close>), the
  overridable per-operation hooks and the callbacks of the registered handlers. Every
  call that leaves the class (store, hook, handler callback, logger, timer) is appended
  to a trace, in program order.

  The methods are given twice. First each method is a function that runs it in one go,
  the way it runs when nothing else happens before it returns (\<^verbatim>\<open>reconnect\<close> is
  split at the timer on which it waits). Then, in the last subsection, the methods are
  cut at every \<^verbatim>\<open>await\<close> into steps that a schedule interleaves with the signals
  of the stream and with calls from outside: the class itself never waits for one signal
  to be processed before it takes the next.
\<close>

subsection \<open>Data\<close>

type_synonym token = string
type_synonym timestamp = string
type_synonym err = string
type_synonym hid = nat

datatype fullDocumentMode = Default | UpdateLookup | WhenAvailable | Required

text \<open>
  \<^verbatim>\<open>mongodb.ChangeStreamOptions\<close> belongs to the driver; the record holds the
  properties that \<^verbatim>\<open>start\<close> writes. Reading an absent property and reading a
  property whose value is \<^verbatim>\<open>undefined\<close> both give \<open>None\<close>.
\<close>

record ChangeStreamOptions =
  cs_fullDocument :: "fullDocumentMode option"
  cs_resumeAfter :: "token option"
  cs_startAtOperationTime :: "timestamp option"
  cs_batchSize :: "int option"
  cs_maxAwaitTimeMS :: "int option"

text \<open>
  An object spread copies a property that is present with the value \<^verbatim>\<open>undefined\<close>
  and so overwrites what was there, while an absent property overwrites nothing. The two
  spreads of the class are over the caller's \<^verbatim>\<open>changeStreamOptions\<close> (in
  \<^verbatim>\<open>start\<close>, over \<^verbatim>\<open>fullDocument\<close>) and over the caller's options (in
  \<^verbatim>\<open>applyDefaultOptions\<close>, over the four defaults). For these properties the
  objects the caller gives carry a flag: the property is present and
  \<^verbatim>\<open>undefined\<close>. A flag has a meaning only where the property reads \<open>None\<close>.
\<close>

record given_stream_options = ChangeStreamOptions +
  undefined_cs_fullDocument :: bool

record CdcServiceOptions =
  changeStreamOptions :: "given_stream_options option"
  fullDocument :: "fullDocumentMode option"
  resumeAfter :: "token option"
  startAtOperationTime :: "timestamp option"
  pipeline :: "string list option"
  batchSize :: "int option"
  maxAwaitTimeMS :: "int option"
  autoReconnect :: "bool option"
  reconnectDelay :: "int option"
  maxReconnectAttempts :: "int option"

record given_options = CdcServiceOptions +
  undefined_fullDocument :: bool
  undefined_autoReconnect :: bool
  undefined_reconnectDelay :: bool
  undefined_maxReconnectAttempts :: bool

text \<open>
  A raw notification as the stream delivers it (\<^verbatim>\<open>change: any\<close>). \<open>c_id\<close> is
  \<^verbatim>\<open>change._id\<close>; \<open>None\<close> stands for a missing or otherwise falsy value.
\<close>

record raw_change =
  c_id :: "token option"
  c_operationType :: string
  c_documentKey :: "string option"
  c_fullDocument :: "string option"
  c_updateDescription :: "string option"
  c_ns :: "(string \<times> string) option"
  c_clusterTime :: "timestamp option"

record CdcChangeEvent =
  operationType :: string
  documentKey :: "string option"
  fullDocument_ev :: "string option"
  updateDescription :: "string option"
  ns :: "(string \<times> string) option"
  clusterTime :: "timestamp option"

datatype hook_kind = HandleInsert | HandleUpdate | HandleReplace | HandleDelete | HandleOther

datatype level = LogLevel | WarnLevel | ErrorLevel | DebugLevel

text \<open>
  The calls that leave the class. \<open>Hook\<close> and \<open>OnEvent\<close> carry what
  \<^verbatim>\<open>getResumeToken()\<close> returns at the moment the callee is entered.
\<close>

datatype call =
    Watch "string list" ChangeStreamOptions
  | Close nat
  | Hook hook_kind CdcChangeEvent "token option"
  | OnEvent hid CdcChangeEvent "token option"
  | OnError hid err
  | OnClose hid
  | Logger level string
  | SetTimeout int

text \<open>
  A handler callback, seen from the engine: the handlers it unregisters on the engine
  while it runs (in that order), and the error it throws at its end, if any. Callbacks
  that register handlers or start and stop the engine from inside are not covered (a
  callback that registers a new handler at every call keeps the loop of a dispatch
  running forever).
\<close>

record callback =
  unregisters :: "hid list"
  throws :: "err option"

text \<open>
  The environment. \<open>watch_result n\<close> is the outcome of the \<open>n\<close>-th call of
  \<^verbatim>\<open>model.watch\<close> (counted from 0; \<open>Some e\<close> when it throws), \<open>close_result\<close>
  likewise for \<^verbatim>\<open>changeStream.close\<close>. \<open>hook\<close> is the outcome of the
  operation-specific hook as the subclass overrides it. \<open>onError\<close> and \<open>onClose\<close>
  are optional members of a handler.
\<close>

record env =
  watch_result :: "nat \<Rightarrow> err option"
  close_result :: "nat \<Rightarrow> err option"
  hook :: "hook_kind \<Rightarrow> CdcChangeEvent \<Rightarrow> err option"
  onEvent :: "hid \<Rightarrow> CdcChangeEvent \<Rightarrow> callback"
  onError :: "hid \<Rightarrow> err \<Rightarrow> callback option"
  onClose :: "hid \<Rightarrow> callback option"

record engine =
  changeStream :: "nat option"
  handlers :: "hid list"
  watching :: bool
  resumeToken :: "token option"
  reconnectAttempts :: nat
  cdcOptions :: CdcServiceOptions
  trace :: "call list"

subsection \<open>Construction\<close>

definition emit :: "call \<Rightarrow> engine \<Rightarrow> engine" where
  "emit c s = s\<lparr>trace := trace s @ [c]\<rparr>"

definition logger :: "level \<Rightarrow> string \<Rightarrow> engine \<Rightarrow> engine" where
  "logger l m s = emit (Logger l m) s"

text \<open>
  \<^verbatim>\<open>{ ...defaults, ...this.cdcOptions }\<close>: a property the caller gave wins, also
  when it was given as \<^verbatim>\<open>undefined\<close>; a property the caller left out gets its
  default.
\<close>

definition or_default :: "'a option \<Rightarrow> bool \<Rightarrow> 'a \<Rightarrow> 'a option" where
  "or_default given given_undefined d =
     (case given of
        Some v \<Rightarrow> Some v
      | None \<Rightarrow> if given_undefined then None else Some d)"

definition applyDefaultOptions :: "given_options \<Rightarrow> CdcServiceOptions" where
  "applyDefaultOptions opts =
     \<lparr> changeStreamOptions = changeStreamOptions opts,
       fullDocument = or_default (fullDocument opts) (undefined_fullDocument opts) UpdateLookup,
       resumeAfter = resumeAfter opts,
       startAtOperationTime = startAtOperationTime opts,
       pipeline = pipeline opts,
       batchSize = batchSize opts,
       maxAwaitTimeMS = maxAwaitTimeMS opts,
       autoReconnect = or_default (autoReconnect opts) (undefined_autoReconnect opts) True,
       reconnectDelay = or_default (reconnectDelay opts) (undefined_reconnectDelay opts) 1000,
       maxReconnectAttempts =
         or_default (maxReconnectAttempts opts) (undefined_maxReconnectAttempts opts) 5 \<rparr>"

text \<open>The constructor's default argument \<^verbatim>\<open>{}\<close>.\<close>

definition no_options :: given_options where
  "no_options = \<lparr> changeStreamOptions = None, fullDocument = None, resumeAfter = None,
     startAtOperationTime = None, pipeline = None, batchSize = None, maxAwaitTimeMS = None,
     autoReconnect = None, reconnectDelay = None, maxReconnectAttempts = None,
     undefined_fullDocument = False, undefined_autoReconnect = False,
     undefined_reconnectDelay = False, undefined_maxReconnectAttempts = False \<rparr>"

definition new_engine :: "given_options \<Rightarrow> engine" where
  "new_engine opts = \<lparr> changeStream = None, handlers = [], watching = False,
     resumeToken = None, reconnectAttempts = 0,
     cdcOptions = applyDefaultOptions opts, trace = [] \<rparr>"

subsection \<open>The handler registry\<close>

definition registerHandler :: "hid \<Rightarrow> engine \<Rightarrow> engine" where
  "registerHandler h s =
     (if h \<notin> set (handlers s)
      then logger DebugLevel ''Event handler registered'' (s\<lparr>handlers := handlers s @ [h]\<rparr>)
      else s)"

fun indexOf :: "'a list \<Rightarrow> 'a \<Rightarrow> int" where
  "indexOf [] h = -1"
| "indexOf (x # xs) h =
     (if x = h then 0 else (let i = indexOf xs h in if i = -1 then -1 else i + 1))"

definition splice1 :: "nat \<Rightarrow> 'a list \<Rightarrow> 'a list" where
  "splice1 i xs = take i xs @ drop (Suc i) xs"

definition unregisterHandler :: "hid \<Rightarrow> engine \<Rightarrow> engine" where
  "unregisterHandler h s =
     (let index = indexOf (handlers s) h in
      if index \<noteq> -1
      then logger DebugLevel ''Event handler unregistered''
             (s\<lparr>handlers := splice1 (nat index) (handlers s)\<rparr>)
      else s)"

definition isWatching :: "engine \<Rightarrow> bool" where
  "isWatching s = watching s"

definition getResumeToken :: "engine \<Rightarrow> token option" where
  "getResumeToken s = resumeToken s"

subsection \<open>Dispatch to the registered handlers\<close>

text \<open>
  The three loops \<^verbatim>\<open>for (const handler of this.handlers)\<close> of
  \<^verbatim>\<open>notifyHandlers\<close>, \<^verbatim>\<open>handleError\<close> and \<^verbatim>\<open>handleClose\<close> have one
  shape and differ in the member called and in the message logged when it throws. The
  array iterator reads \<^verbatim>\<open>this.handlers\<close> itself at every step: position \<open>i\<close> is
  compared with the current length, the element at \<open>i\<close> is taken, and \<open>i\<close> advances.
\<close>

datatype signal = EventSignal CdcChangeEvent | ErrorSignal err | CloseSignal

definition member_of :: "env \<Rightarrow> signal \<Rightarrow> hid \<Rightarrow> engine \<Rightarrow> (call \<times> callback) option" where
  "member_of e sg h s =
     (case sg of
        EventSignal ev \<Rightarrow> Some (OnEvent h ev (getResumeToken s), onEvent e h ev)
      | ErrorSignal x \<Rightarrow> map_option (Pair (OnError h x)) (onError e h x)
      | CloseSignal \<Rightarrow> map_option (Pair (OnClose h)) (onClose e h))"

definition catch_message :: "signal \<Rightarrow> string" where
  "catch_message sg =
     (case sg of
        EventSignal ev \<Rightarrow> ''Error in event handler''
      | ErrorSignal x \<Rightarrow> ''Error in error handler''
      | CloseSignal \<Rightarrow> ''Error in close handler'')"

definition run_callback :: "callback \<Rightarrow> engine \<Rightarrow> err option \<times> engine" where
  "run_callback cb s = (throws cb, foldl (\<lambda>s' h. unregisterHandler h s') s (unregisters cb))"

definition invoke :: "env \<Rightarrow> signal \<Rightarrow> hid \<Rightarrow> engine \<Rightarrow> engine" where
  "invoke e sg h s =
     (case member_of e sg h s of
        None \<Rightarrow> s
      | Some (c, cb) \<Rightarrow>
          (case run_callback cb (emit c s) of
             (None, s') \<Rightarrow> s'
           | (Some x, s') \<Rightarrow> logger ErrorLevel (catch_message sg) s'))"

lemma handlers_emit [simp]: "handlers (emit c s) = handlers s"
  by (simp add: emit_def)

lemma handlers_logger [simp]: "handlers (logger l m s) = handlers s"
  by (simp add: logger_def)

lemma indexOf_bounds: "indexOf xs h = -1 \<or> (0 \<le> indexOf xs h \<and> indexOf xs h < int (length xs))"
  by (induction xs) (auto simp: Let_def)

lemma indexOf_absent: "indexOf xs h = -1 \<longleftrightarrow> h \<notin> set xs"
proof (induction xs)
  case Nil
  show ?case by simp
next
  case (Cons x xs)
  have "indexOf xs h \<noteq> -1 \<Longrightarrow> indexOf xs h + 1 \<noteq> -1"
    using indexOf_bounds [of xs h] by auto
  with Cons show ?case by (auto simp: Let_def)
qed

lemma splice1_indexOf: "h \<in> set xs \<Longrightarrow> splice1 (nat (indexOf xs h)) xs = remove1 h xs"
proof (induction xs)
  case Nil
  then show ?case by simp
next
  case (Cons x xs)
  show ?case
  proof (cases "x = h")
    case True
    then show ?thesis by (simp add: splice1_def)
  next
    case False
    with Cons.prems have mem: "h \<in> set xs" by simp
    then have "indexOf xs h \<noteq> -1" by (simp add: indexOf_absent)
    moreover from this have "0 \<le> indexOf xs h"
      using indexOf_bounds [of xs h] by auto
    moreover have "splice1 (nat (indexOf xs h)) xs = remove1 h xs"
      using Cons.IH mem by simp
    ultimately show ?thesis
      using False by (simp add: splice1_def Let_def nat_add_distrib)
  qed
qed

lemma handlers_unregisterHandler: "handlers (unregisterHandler h s) = remove1 h (handlers s)"
proof (cases "h \<in> set (handlers s)")
  case True
  then show ?thesis
    by (simp add: unregisterHandler_def Let_def indexOf_absent splice1_indexOf)
next
  case False
  then show ?thesis
    by (simp add: unregisterHandler_def Let_def indexOf_absent remove1_idem)
qed

lemma handlers_unregister_all:
  "handlers (foldl (\<lambda>s' h. unregisterHandler h s') s hs) = foldl (\<lambda>xs h. remove1 h xs) (handlers s) hs"
  by (induction hs arbitrary: s) (simp_all add: handlers_unregisterHandler)

lemma length_remove_all: "length (foldl (\<lambda>xs h. remove1 h xs) xs hs) \<le> length xs"
proof (induction hs arbitrary: xs)
  case Nil
  show ?case by simp
next
  case (Cons h hs)
  have "length (foldl (\<lambda>xs h. remove1 h xs) (remove1 h xs) hs) \<le> length (remove1 h xs)"
    by (rule Cons.IH)
  also have "\<dots> \<le> length xs"
    by (cases "h \<in> set xs") (simp_all add: length_remove1 remove1_idem)
  finally show ?case by simp
qed

lemma handlers_invoke:
  "handlers (invoke e sg h s) =
     (case member_of e sg h s of
        None \<Rightarrow> handlers s
      | Some (c, cb) \<Rightarrow> foldl (\<lambda>xs h. remove1 h xs) (handlers s) (unregisters cb))"
  by (simp add: invoke_def run_callback_def handlers_unregister_all
           split: option.splits prod.splits)

lemma length_handlers_invoke: "length (handlers (invoke e sg h s)) \<le> length (handlers s)"
  by (simp add: handlers_invoke length_remove_all split: option.splits prod.splits)

function for_handlers :: "env \<Rightarrow> signal \<Rightarrow> nat \<Rightarrow> engine \<Rightarrow> engine" where
  "for_handlers e sg i s =
     (if i < length (handlers s)
      then for_handlers e sg (Suc i) (invoke e sg (handlers s ! i) s)
      else s)"
  by pat_completeness auto
termination
proof (relation "measure (\<lambda>(e, sg, i, s). length (handlers s) - i)")
  show "wf (measure (\<lambda>(e, sg, i, s). length (handlers s) - i))" by simp
next
  fix e :: env and sg :: signal and i :: nat and s :: engine
  assume "i < length (handlers s)"
  moreover have "length (handlers (invoke e sg (handlers s ! i) s)) \<le> length (handlers s)"
    by (rule length_handlers_invoke)
  ultimately show "((e, sg, Suc i, invoke e sg (handlers s ! i) s), (e, sg, i, s))
      \<in> measure (\<lambda>(e, sg, i, s). length (handlers s) - i)"
    by simp
qed

declare for_handlers.simps [simp del]

definition notifyHandlers :: "env \<Rightarrow> CdcChangeEvent \<Rightarrow> engine \<Rightarrow> engine" where
  "notifyHandlers e ev s = for_handlers e (EventSignal ev) 0 s"

subsection \<open>Starting and stopping\<close>

definition truthy :: "int option \<Rightarrow> bool" where
  "truthy v = (case v of None \<Rightarrow> False | Some n \<Rightarrow> n \<noteq> 0)"

definition no_stream_options :: ChangeStreamOptions where
  "no_stream_options = \<lparr> cs_fullDocument = None, cs_resumeAfter = None,
     cs_startAtOperationTime = None, cs_batchSize = None, cs_maxAwaitTimeMS = None \<rparr>"

text \<open>
  The options object that \<^verbatim>\<open>start\<close> builds: \<^verbatim>\<open>fullDocument\<close> first, the
  caller's \<^verbatim>\<open>changeStreamOptions\<close> spread over it (its \<^verbatim>\<open>fullDocument\<close> wins
  when present, also when present as \<^verbatim>\<open>undefined\<close>), then the four conditional
  assignments.
\<close>

definition stream_request :: "CdcServiceOptions \<Rightarrow> ChangeStreamOptions" where
  "stream_request opts =
     (let r0 = (case changeStreamOptions opts of
                  None \<Rightarrow> no_stream_options\<lparr>cs_fullDocument := fullDocument opts\<rparr>
                | Some c \<Rightarrow>
                    \<lparr> cs_fullDocument =
                        (case cs_fullDocument c of
                           Some m \<Rightarrow> Some m
                         | None \<Rightarrow> if undefined_cs_fullDocument c then None
                                   else fullDocument opts),
                      cs_resumeAfter = cs_resumeAfter c,
                      cs_startAtOperationTime = cs_startAtOperationTime c,
                      cs_batchSize = cs_batchSize c,
                      cs_maxAwaitTimeMS = cs_maxAwaitTimeMS c \<rparr>);
          r1 = (case resumeAfter opts of None \<Rightarrow> r0 | Some t \<Rightarrow> r0\<lparr>cs_resumeAfter := Some t\<rparr>);
          r2 = (case startAtOperationTime opts of
                  None \<Rightarrow> r1 | Some t \<Rightarrow> r1\<lparr>cs_startAtOperationTime := Some t\<rparr>);
          r3 = (if truthy (batchSize opts) then r2\<lparr>cs_batchSize := batchSize opts\<rparr> else r2);
          r4 = (if truthy (maxAwaitTimeMS opts)
                then r3\<lparr>cs_maxAwaitTimeMS := maxAwaitTimeMS opts\<rparr> else r3)
      in r4)"

fun is_watch :: "call \<Rightarrow> bool" where
  "is_watch (Watch p r) = True"
| "is_watch c = False"

fun is_close :: "call \<Rightarrow> bool" where
  "is_close (Close n) = True"
| "is_close c = False"

definition watch_calls :: "call list \<Rightarrow> call list" where
  "watch_calls tr = filter is_watch tr"

definition close_calls :: "call list \<Rightarrow> call list" where
  "close_calls tr = filter is_close tr"

text \<open>
  The call \<^verbatim>\<open>this.model.watch(pipeline, changeStreamOptions)\<close>, with
  \<^verbatim>\<open>this.cdcOptions.pipeline || []\<close> as the pipeline.
\<close>

definition watch_call :: "CdcServiceOptions \<Rightarrow> call" where
  "watch_call opts =
     Watch (case pipeline opts of None \<Rightarrow> [] | Some q \<Rightarrow> q) (stream_request opts)"

text \<open>
  A method that can throw returns the error beside the state it leaves behind:
  \<open>None\<close> is a normal return.
\<close>

definition start :: "env \<Rightarrow> engine \<Rightarrow> err option \<times> engine" where
  "start e s =
     (if watching s then (None, logger WarnLevel ''CDC service is already watching'' s)
      else
        (let n = length (watch_calls (trace s));
             s1 = emit (watch_call (cdcOptions s)) s
         in case watch_result e n of
              Some x \<Rightarrow> (Some x, logger ErrorLevel ''Failed to start CDC service'' s1)
            | None \<Rightarrow>
                (None, logger LogLevel ''CDC service started successfully''
                   (s1\<lparr>changeStream := Some n, watching := True, reconnectAttempts := 0\<rparr>))))"

definition stop :: "env \<Rightarrow> engine \<Rightarrow> err option \<times> engine" where
  "stop e s =
     (if \<not> watching s then (None, logger WarnLevel ''CDC service is not watching'' s)
      else
        (case changeStream s of
           None \<Rightarrow> (None, logger LogLevel ''CDC service stopped successfully''
                       (s\<lparr>watching := False\<rparr>))
         | Some cs \<Rightarrow>
             (let n = length (close_calls (trace s));
                  s1 = emit (Close cs) s
              in case close_result e n of
                   Some x \<Rightarrow> (Some x, logger ErrorLevel ''Failed to stop CDC service'' s1)
                 | None \<Rightarrow>
                     (None, logger LogLevel ''CDC service stopped successfully''
                        (s1\<lparr>changeStream := None, watching := False\<rparr>)))))"

definition onModuleDestroy :: "env \<Rightarrow> engine \<Rightarrow> err option \<times> engine" where
  "onModuleDestroy e s = stop e s"

subsection \<open>Reconnecting\<close>

text \<open>\<^verbatim>\<open>v || d\<close> on an optional number.\<close>

definition num_or :: "int option \<Rightarrow> int \<Rightarrow> int" where
  "num_or v d = (case v of None \<Rightarrow> d | Some n \<Rightarrow> if n \<noteq> 0 then n else d)"

definition shouldReconnect :: "engine \<Rightarrow> bool" where
  "shouldReconnect s =
     (let maxAttempts = num_or (maxReconnectAttempts (cdcOptions s)) 0
      in maxAttempts = 0 \<or> int (reconnectAttempts s) < maxAttempts)"

text \<open>
  \<^verbatim>\<open>reconnect\<close> up to its \<^verbatim>\<open>await\<close> on the timer: the counter is incremented, the
  attempt is logged and the timer is set.
\<close>

definition reconnect_wait :: "engine \<Rightarrow> engine" where
  "reconnect_wait s =
     (let s1 = s\<lparr>reconnectAttempts := Suc (reconnectAttempts s)\<rparr>;
          delay = num_or (reconnectDelay (cdcOptions s1)) 1000
      in emit (SetTimeout delay) (logger LogLevel ''Attempting to reconnect'' s1))"

text \<open>
  \<^verbatim>\<open>if (this.resumeToken) this.cdcOptions.resumeAfter = this.resumeToken\<close>, the
  first statement of \<^verbatim>\<open>reconnect\<close> after the timer.
\<close>

definition carry_token :: "engine \<Rightarrow> engine" where
  "carry_token s =
     (case resumeToken s of
        None \<Rightarrow> s
      | Some t \<Rightarrow> s\<lparr>cdcOptions := (cdcOptions s)\<lparr>resumeAfter := Some t\<rparr>\<rparr>)"

text \<open>
  \<^verbatim>\<open>reconnect\<close> from the moment the timer fires. When \<^verbatim>\<open>start\<close> throws and
  \<^verbatim>\<open>shouldReconnect()\<close> holds, \<^verbatim>\<open>reconnect\<close> calls itself; under a store that
  refuses every time and no bound on the attempts it never returns. The second argument
  bounds the number of calls of \<^verbatim>\<open>start\<close>; \<open>None\<close> means the bound was too small.
\<close>

fun reconnect_resume :: "env \<Rightarrow> nat \<Rightarrow> engine \<Rightarrow> engine option" where
  "reconnect_resume e 0 s = None"
| "reconnect_resume e (Suc n) s =
     (let s1 = carry_token s
      in case start e s1 of
           (None, s2) \<Rightarrow> Some (logger LogLevel ''Reconnected successfully'' s2)
         | (Some x, s2) \<Rightarrow>
             (let s3 = logger ErrorLevel ''Reconnection failed'' s2
              in if shouldReconnect s3
                 then reconnect_resume e n (reconnect_wait s3)
                 else Some (logger ErrorLevel ''Maximum reconnection attempts reached'' s3)))"

definition reconnect :: "env \<Rightarrow> nat \<Rightarrow> engine \<Rightarrow> engine option" where
  "reconnect e n s = reconnect_resume e n (reconnect_wait s)"

subsection \<open>The three signals of the stream\<close>

text \<open>
  The listeners that \<^verbatim>\<open>start\<close> attaches call \<^verbatim>\<open>handleChange\<close>,
  \<^verbatim>\<open>handleError\<close> and \<^verbatim>\<open>handleClose\<close>; each takes the bound that it passes on
  to \<^verbatim>\<open>reconnect\<close>.
\<close>

definition handleError :: "env \<Rightarrow> nat \<Rightarrow> err \<Rightarrow> engine \<Rightarrow> engine option" where
  "handleError e n x s =
     (let s1 = logger ErrorLevel ''CDC service error'' s;
          s2 = for_handlers e (ErrorSignal x) 0 s1
      in if autoReconnect (cdcOptions s2) = Some True \<and> shouldReconnect s2
         then reconnect e n s2
         else Some s2)"

definition handleClose :: "env \<Rightarrow> nat \<Rightarrow> engine \<Rightarrow> engine option" where
  "handleClose e n s =
     (let s1 = logger LogLevel ''Change stream closed'' s;
          s2 = s1\<lparr>watching := False\<rparr>;
          s3 = for_handlers e CloseSignal 0 s2
      in if autoReconnect (cdcOptions s3) = Some True \<and> shouldReconnect s3
         then reconnect e n s3
         else Some s3)"

text \<open>
  The part of \<^verbatim>\<open>handleClose\<close> that runs before \<^verbatim>\<open>reconnect\<close> starts to wait,
  for a run in which it does reconnect: the state in which the engine sits while the
  timer is pending. Likewise for \<^verbatim>\<open>handleError\<close>.
\<close>

definition handleClose_until_wait :: "env \<Rightarrow> engine \<Rightarrow> engine" where
  "handleClose_until_wait e s =
     reconnect_wait
       (for_handlers e CloseSignal 0 ((logger LogLevel ''Change stream closed'' s)\<lparr>watching := False\<rparr>))"

definition handleError_until_wait :: "env \<Rightarrow> err \<Rightarrow> engine \<Rightarrow> engine" where
  "handleError_until_wait e x s =
     reconnect_wait (for_handlers e (ErrorSignal x) 0 (logger ErrorLevel ''CDC service error'' s))"

definition to_event :: "raw_change \<Rightarrow> CdcChangeEvent" where
  "to_event c = \<lparr> operationType = c_operationType c, documentKey = c_documentKey c,
     fullDocument_ev = c_fullDocument c, updateDescription = c_updateDescription c,
     ns = c_ns c, clusterTime = c_clusterTime c \<rparr>"

definition hook_for :: "string \<Rightarrow> hook_kind" where
  "hook_for t =
     (if t = ''insert'' then HandleInsert
      else if t = ''update'' then HandleUpdate
      else if t = ''replace'' then HandleReplace
      else if t = ''delete'' then HandleDelete
      else HandleOther)"

definition store_token :: "raw_change \<Rightarrow> engine \<Rightarrow> engine" where
  "store_token c s = (case c_id c of None \<Rightarrow> s | Some t \<Rightarrow> s\<lparr>resumeToken := Some t\<rparr>)"

definition handleChange :: "env \<Rightarrow> nat \<Rightarrow> raw_change \<Rightarrow> engine \<Rightarrow> engine option" where
  "handleChange e n c s =
     (let s1 = store_token c s;
          ev = to_event c;
          k = hook_for (operationType ev);
          s2 = emit (Hook k ev (getResumeToken s1)) s1
      in case hook e k ev of
           None \<Rightarrow> Some (notifyHandlers e ev s2)
         | Some x \<Rightarrow> handleError e n x (logger ErrorLevel ''Error handling change event'' s2))"

subsection \<open>Signals and calls that overlap\<close>

text \<open>
  The listeners that \<^verbatim>\<open>start\<close> attaches call \<^verbatim>\<open>this.handleChange(change)\<close>,
  \<^verbatim>\<open>this.handleError(error)\<close> and \<^verbatim>\<open>this.handleClose()\<close> and drop the promise,
  and each of these methods gives up control at every \<^verbatim>\<open>await\<close>:
  \<^verbatim>\<open>handleChange\<close> after it has called the hook, the three loops over the handlers
  after each call of a member, \<^verbatim>\<open>reconnect\<close> while its timer runs and after it has
  called \<^verbatim>\<open>start\<close>, \<^verbatim>\<open>stop\<close> while the stream closes. Whatever comes meanwhile
  runs at once: another signal of the stream, or a call of \<^verbatim>\<open>start\<close>,
  \<^verbatim>\<open>stop\<close>, \<^verbatim>\<open>registerHandler\<close> or \<^verbatim>\<open>unregisterHandler\<close> from outside.
  So \<open>handleChange\<close>, \<open>handleError\<close>, \<open>handleClose\<close> and \<open>stop\<close> above are the
  runs of one method with nothing in between, and the steps below are what the program
  does in general.

  A task is a method that waits at an \<^verbatim>\<open>await\<close>: \<^verbatim>\<open>handleChange\<close> for the hook,
  with the hook's outcome; a loop over the handlers for the member it called, with the
  signal, the position the array iterator is at and the outcome of the member;
  \<^verbatim>\<open>reconnect\<close> for its timer, or for its call of \<^verbatim>\<open>start\<close>, with the outcome
  of \<^verbatim>\<open>start\<close>; \<^verbatim>\<open>stop\<close> for \<^verbatim>\<open>changeStream.close()\<close>, with its outcome.
\<close>

datatype task =
    AwaitHook CdcChangeEvent "err option"
  | AwaitHandler signal nat "err option"
  | AwaitTimer
  | AwaitStart "err option"
  | AwaitClose "err option"

text \<open>
  A loop over the handlers from position \<open>i\<close> to its next \<^verbatim>\<open>await\<close>: handlers
  without the member are passed (\<^verbatim>\<open>if (handler.onError)\<close>), the first one that has it
  is called and the loop waits for it; \<open>None\<close> when the loop has come to the end of the
  array.
\<close>

function next_handler :: "env \<Rightarrow> signal \<Rightarrow> nat \<Rightarrow> engine \<Rightarrow> (engine \<times> task) option" where
  "next_handler e sg i s =
     (if i < length (handlers s)
      then (case member_of e sg (handlers s ! i) s of
              None \<Rightarrow> next_handler e sg (Suc i) s
            | Some (c, cb) \<Rightarrow>
                (let r = run_callback cb (emit c s)
                 in Some (snd r, AwaitHandler sg (Suc i) (fst r))))
      else None)"
  by pat_completeness auto
termination
  by (relation "measure (\<lambda>(e, sg, i, s). length (handlers s) - i)") auto

text \<open>
  What follows the loop: nothing in \<^verbatim>\<open>notifyHandlers\<close>; in \<^verbatim>\<open>handleError\<close> and
  \<^verbatim>\<open>handleClose\<close> the decision to reconnect, and \<^verbatim>\<open>reconnect\<close> up to its timer.
\<close>

definition after_handlers :: "signal \<Rightarrow> engine \<Rightarrow> engine \<times> task option" where
  "after_handlers sg s =
     (case sg of
        EventSignal ev \<Rightarrow> (s, None)
      | _ \<Rightarrow>
          if autoReconnect (cdcOptions s) = Some True \<and> shouldReconnect s
          then (reconnect_wait s, Some AwaitTimer)
          else (s, None))"

definition loop_from :: "env \<Rightarrow> signal \<Rightarrow> nat \<Rightarrow> engine \<Rightarrow> engine \<times> task option" where
  "loop_from e sg i s =
     (case next_handler e sg i s of
        Some (s', t) \<Rightarrow> (s', Some t)
      | None \<Rightarrow> after_handlers sg s)"

text \<open>
  The methods from their call to their first \<^verbatim>\<open>await\<close>. \<^verbatim>\<open>handleChange\<close> stores
  the token, builds the event and calls the hook.
\<close>

definition handleChange_enter :: "env \<Rightarrow> raw_change \<Rightarrow> engine \<Rightarrow> engine \<times> task option" where
  "handleChange_enter e c s =
     (let s1 = store_token c s;
          ev = to_event c;
          k = hook_for (operationType ev)
      in (emit (Hook k ev (getResumeToken s1)) s1, Some (AwaitHook ev (hook e k ev))))"

definition handleError_enter :: "env \<Rightarrow> err \<Rightarrow> engine \<Rightarrow> engine \<times> task option" where
  "handleError_enter e x s = loop_from e (ErrorSignal x) 0 (logger ErrorLevel ''CDC service error'' s)"

definition handleClose_enter :: "env \<Rightarrow> engine \<Rightarrow> engine \<times> task option" where
  "handleClose_enter e s =
     loop_from e CloseSignal 0 ((logger LogLevel ''Change stream closed'' s)\<lparr>watching := False\<rparr>)"

definition stop_enter :: "env \<Rightarrow> engine \<Rightarrow> engine \<times> task option" where
  "stop_enter e s =
     (if \<not> watching s then (logger WarnLevel ''CDC service is not watching'' s, None)
      else
        (case changeStream s of
           None \<Rightarrow> (logger LogLevel ''CDC service stopped successfully'' (s\<lparr>watching := False\<rparr>), None)
         | Some cs \<Rightarrow>
             (emit (Close cs) s, Some (AwaitClose (close_result e (length (close_calls (trace s))))))))"

text \<open>
  A task goes on to its next \<^verbatim>\<open>await\<close> or to its end. After a hook that threw, the
  \<^verbatim>\<open>catch\<close> of \<^verbatim>\<open>handleChange\<close> logs and calls \<^verbatim>\<open>handleError\<close>; after a
  member that threw, the \<^verbatim>\<open>catch\<close> of the loop logs and the loop goes on; after the
  timer, \<^verbatim>\<open>reconnect\<close> copies the token and calls \<^verbatim>\<open>start\<close>, which has no
  \<^verbatim>\<open>await\<close> of its own.
\<close>

fun resume_task :: "env \<Rightarrow> task \<Rightarrow> engine \<Rightarrow> engine \<times> task option" where
  "resume_task e (AwaitHook ev None) s = loop_from e (EventSignal ev) 0 s"
| "resume_task e (AwaitHook ev (Some x)) s =
     handleError_enter e x (logger ErrorLevel ''Error handling change event'' s)"
| "resume_task e (AwaitHandler sg i None) s = loop_from e sg i s"
| "resume_task e (AwaitHandler sg i (Some x)) s =
     loop_from e sg i (logger ErrorLevel (catch_message sg) s)"
| "resume_task e AwaitTimer s =
     (let r = start e (carry_token s) in (snd r, Some (AwaitStart (fst r))))"
| "resume_task e (AwaitStart None) s = (logger LogLevel ''Reconnected successfully'' s, None)"
| "resume_task e (AwaitStart (Some x)) s =
     (let s3 = logger ErrorLevel ''Reconnection failed'' s
      in if shouldReconnect s3
         then (reconnect_wait s3, Some AwaitTimer)
         else (logger ErrorLevel ''Maximum reconnection attempts reached'' s3, None))"
| "resume_task e (AwaitClose None) s =
     (logger LogLevel ''CDC service stopped successfully''
        (s\<lparr>changeStream := None, watching := False\<rparr>), None)"
| "resume_task e (AwaitClose (Some x)) s =
     (logger ErrorLevel ''Failed to stop CDC service'' s, None)"

text \<open>
  What happens to the engine, in order: a signal of the stream arrives, the waiting task at
  a position of the pool goes on (a position that holds no task does nothing), or a
  method is called from outside. A task that ends leaves the pool.
\<close>

datatype action =
    Arrive raw_change
  | Fail err
  | Closed
  | Resume nat
  | CallStart
  | CallStop
  | CallRegister hid
  | CallUnregister hid

fun spawn :: "task list \<Rightarrow> engine \<times> task option \<Rightarrow> engine \<times> task list" where
  "spawn ts (s, None) = (s, ts)"
| "spawn ts (s, Some t) = (s, ts @ [t])"

fun continue :: "nat \<Rightarrow> task list \<Rightarrow> engine \<times> task option \<Rightarrow> engine \<times> task list" where
  "continue k ts (s, None) = (s, take k ts @ drop (Suc k) ts)"
| "continue k ts (s, Some t) = (s, ts[k := t])"

fun step :: "env \<Rightarrow> action \<Rightarrow> engine \<times> task list \<Rightarrow> engine \<times> task list" where
  "step e (Arrive c) (s, ts) = spawn ts (handleChange_enter e c s)"
| "step e (Fail x) (s, ts) = spawn ts (handleError_enter e x s)"
| "step e Closed (s, ts) = spawn ts (handleClose_enter e s)"
| "step e (Resume k) (s, ts) =
     (if k < length ts then continue k ts (resume_task e (ts ! k) s) else (s, ts))"
| "step e CallStart (s, ts) = (snd (start e s), ts)"
| "step e CallStop (s, ts) = spawn ts (stop_enter e s)"
| "step e (CallRegister h) (s, ts) = (registerHandler h s, ts)"
| "step e (CallUnregister h) (s, ts) = (unregisterHandler h s, ts)"

fun run_schedule :: "env \<Rightarrow> action list \<Rightarrow> engine \<times> task list \<Rightarrow> engine \<times> task list" where
  "run_schedule e [] st = st"
| "run_schedule e (a # acts) st = run_schedule e acts (step e a st)"

section \<open>Vocabulary of the properties\<close>

text \<open>
  \<open>frame s s'\<close>: the fields that no handler callback can reach are the same in both
  states. \<open>adds P s s'\<close>: the trace of \<open>s'\<close> is the trace of \<open>s\<close> followed by calls that
  all satisfy \<open>P\<close>. \<open>calls_since s s'\<close> are the calls made on the way from \<open>s\<close> to
  \<open>s'\<close>, and \<open>notified\<close> picks from a list of calls the handlers whose
  \<^verbatim>\<open>onEvent\<close> was called, in call order. \<open>event_calls\<close> is what a dispatch calls
  when no callback touches the registry: per handler its \<^verbatim>\<open>onEvent\<close>, then one error
  log if it threw. \<open>sees tok c\<close>: if \<open>c\<close> is a hook or an \<^verbatim>\<open>onEvent\<close>, it was
  entered with \<open>tok\<close> stored as the resume position.
\<close>

definition frame :: "engine \<Rightarrow> engine \<Rightarrow> bool" where
  "frame s s' \<longleftrightarrow>
     changeStream s' = changeStream s \<and> watching s' = watching s \<and>
     resumeToken s' = resumeToken s \<and> reconnectAttempts s' = reconnectAttempts s \<and>
     cdcOptions s' = cdcOptions s"

definition adds :: "(call \<Rightarrow> bool) \<Rightarrow> engine \<Rightarrow> engine \<Rightarrow> bool" where
  "adds P s s' \<longleftrightarrow> (\<exists>tr. trace s' = trace s @ tr \<and> list_all P tr)"

fun onEvent_of :: "call \<Rightarrow> hid option" where
  "onEvent_of (OnEvent h ev t) = Some h"
| "onEvent_of c = None"

definition notified :: "call list \<Rightarrow> hid list" where
  "notified tr = List.map_filter onEvent_of tr"

definition calls_since :: "engine \<Rightarrow> engine \<Rightarrow> call list" where
  "calls_since s s' = drop (length (trace s)) (trace s')"

text \<open>A dispatch in which no callback unregisters anything.\<close>

definition event_calls :: "env \<Rightarrow> CdcChangeEvent \<Rightarrow> token option \<Rightarrow> hid list \<Rightarrow> call list" where
  "event_calls e ev tok hs =
     concat (map (\<lambda>h. OnEvent h ev tok #
       (case throws (onEvent e h ev) of None \<Rightarrow> [] | Some x \<Rightarrow> [Logger ErrorLevel ''Error in event handler''])) hs)"

definition register_all :: "hid list \<Rightarrow> engine \<Rightarrow> engine" where
  "register_all hs s = foldl (\<lambda>s' h. registerHandler h s') s hs"

fun sees :: "token option \<Rightarrow> call \<Rightarrow> bool" where
  "sees tok (Hook k ev t) = (t = tok)"
| "sees tok (OnEvent h ev t) = (t = tok)"
| "sees tok c = True"

text \<open>
  \<open>held tok c\<close>: the call \<open>c\<close> can be made while \<open>tok\<close> stays the stored position: it is
  no hook (no notification arrives), and if it is an \<^verbatim>\<open>onEvent\<close> it was entered with
  \<open>tok\<close> stored. \<open>position_after\<close> follows the stored position along a list of calls:
  each hook is entered with the position that its notification left. \<open>in_step\<close> says that
  every \<^verbatim>\<open>onEvent\<close> of the list was entered with the position of that moment, which
  is the one of the latest hook before it.
\<close>

fun held :: "token option \<Rightarrow> call \<Rightarrow> bool" where
  "held tok (Hook k ev t) = False"
| "held tok (OnEvent h ev t) = (t = tok)"
| "held tok c = True"

fun position_after :: "token option \<Rightarrow> call list \<Rightarrow> token option" where
  "position_after cur [] = cur"
| "position_after cur (Hook k ev t # tr) = position_after t tr"
| "position_after cur (c # tr) = position_after cur tr"

fun in_step :: "token option \<Rightarrow> call list \<Rightarrow> bool" where
  "in_step cur [] = True"
| "in_step cur (Hook k ev t # tr) = in_step t tr"
| "in_step cur (OnEvent h ev t # tr) = (t = cur \<and> in_step cur tr)"
| "in_step cur (c # tr) = in_step cur tr"

text \<open>
  An action other than the arrival of a notification; the calls made by a schedule that
  starts with no task waiting; and the state in which a loop goes on after a member:
  after the \<^verbatim>\<open>catch\<close> of the loop if the member threw.
\<close>

fun no_arrival :: "action \<Rightarrow> bool" where
  "no_arrival (Arrive c) = False"
| "no_arrival a = True"

definition schedule_calls :: "env \<Rightarrow> action list \<Rightarrow> engine \<Rightarrow> call list" where
  "schedule_calls e acts s = calls_since s (fst (run_schedule e acts (s, [])))"

definition logged :: "signal \<Rightarrow> err option \<Rightarrow> engine \<Rightarrow> engine" where
  "logged sg r s = (case r of None \<Rightarrow> s | Some x \<Rightarrow> logger ErrorLevel (catch_message sg) s)"

text \<open>
  The calls of a dispatch to the handlers: an \<^verbatim>\<open>onEvent\<close>, the error log of
  \<^verbatim>\<open>notifyHandlers\<close> for an \<^verbatim>\<open>onEvent\<close> that threw, the debug log of an
  unregistration.
\<close>

fun dispatch_call :: "call \<Rightarrow> bool" where
  "dispatch_call (OnEvent h ev t) = True"
| "dispatch_call (Logger l m) =
     ((l = ErrorLevel \<and> m = ''Error in event handler'') \<or>
      (l = DebugLevel \<and> m = ''Event handler unregistered''))"
| "dispatch_call c = False"

text \<open>The same environment with every \<^verbatim>\<open>onEvent\<close> returning normally.\<close>

definition without_throws :: "env \<Rightarrow> env" where
  "without_throws e = e\<lparr>onEvent := (\<lambda>h ev. (onEvent e h ev)\<lparr>throws := None\<rparr>)\<rparr>"

subsection \<open>Environments and engines of the examples\<close>

definition quiet :: env where
  "quiet = \<lparr> watch_result = (\<lambda>n. None), close_result = (\<lambda>n. None),
     hook = (\<lambda>k ev. None), onEvent = (\<lambda>h ev. \<lparr>unregisters = [], throws = None\<rparr>),
     onError = (\<lambda>h x. None), onClose = (\<lambda>h. None) \<rparr>"

definition insert_event :: CdcChangeEvent where
  "insert_event = \<lparr> operationType = ''insert'', documentKey = Some ''123'',
     fullDocument_ev = Some ''test'', updateDescription = None,
     ns = Some (''testdb'', ''testcoll''), clusterTime = None \<rparr>"

definition insert_change :: raw_change where
  "insert_change = \<lparr> c_id = Some ''token123'', c_operationType = ''insert'',
     c_documentKey = Some ''123'', c_fullDocument = Some ''test'', c_updateDescription = None,
     c_ns = Some (''testdb'', ''testcoll''), c_clusterTime = None \<rparr>"

text \<open>
  The engine of the tests after \<^verbatim>\<open>start()\<close> and one insert notification, with one
  handler registered.
\<close>

definition watching_engine :: engine where
  "watching_engine =
     the (handleChange quiet 0 insert_change
            (snd (start quiet (registerHandler 1 (new_engine no_options)))))"

text \<open>The engine of the test \<^verbatim>\<open>should not reconnect when autoReconnect is false\<close>, started.\<close>

definition no_auto_engine :: engine where
  "no_auto_engine = snd (start quiet (new_engine (no_options\<lparr>autoReconnect := Some False\<rparr>)))"

text \<open>An environment in which the \<^verbatim>\<open>onEvent\<close> of handler 1 throws.\<close>

definition failing_handler :: env where
  "failing_handler = quiet\<lparr>onEvent := (\<lambda>h ev.
     \<lparr>unregisters = [], throws = (if h = 1 then Some ''handler failed'' else None)\<rparr>)\<rparr>"


text \<open>An environment in which the \<^verbatim>\<open>onEvent\<close> of handler 1 unregisters handler 1.\<close>

definition leaving_handler :: env where
  "leaving_handler = quiet\<lparr>onEvent := (\<lambda>h ev.
     \<lparr>unregisters = (if h = 1 then [1] else []), throws = None\<rparr>)\<rparr>"

text \<open>
  An environment in which the \<^verbatim>\<open>onEvent\<close> of handler 1 unregisters handler 1 and
  then throws.
\<close>

definition leaving_failing_handler :: env where
  "leaving_failing_handler = quiet\<lparr>onEvent := (\<lambda>h ev.
     \<lparr>unregisters = (if h = 1 then [1] else []),
      throws = (if h = 1 then Some ''handler failed'' else None)\<rparr>)\<rparr>"

text \<open>A second notification, an update of the same document, with the next token.\<close>

definition update_change :: raw_change where
  "update_change = \<lparr> c_id = Some ''token456'', c_operationType = ''update'',
     c_documentKey = Some ''123'', c_fullDocument = Some ''updated'',
     c_updateDescription = Some ''name'',
     c_ns = Some (''testdb'', ''testcoll''), c_clusterTime = None \<rparr>"

definition update_event :: CdcChangeEvent where
  "update_event = to_event update_change"

section \<open>Lemmas\<close>

lemma frame_refl [simp]: "frame s s"
  by (simp add: frame_def)

lemma frame_trans: "frame s s' \<Longrightarrow> frame s' s'' \<Longrightarrow> frame s s''"
  by (simp add: frame_def)

lemma frame_emit [simp]: "frame s (emit c s)"
  by (simp add: frame_def emit_def)

lemma frame_logger [simp]: "frame s (logger l m s)"
  by (simp add: logger_def)

lemma trace_emit [simp]: "trace (emit c s) = trace s @ [c]"
  by (simp add: emit_def)

lemma trace_logger [simp]: "trace (logger l m s) = trace s @ [Logger l m]"
  by (simp add: logger_def)

lemma frame_unregisterHandler: "frame s (unregisterHandler h s)"
  by (simp add: unregisterHandler_def Let_def frame_def logger_def emit_def)

lemma frame_unregister_all: "frame s (foldl (\<lambda>s' h. unregisterHandler h s') s hs)"
proof (induction hs arbitrary: s)
  case Nil
  show ?case by simp
next
  case (Cons h hs)
  show ?case
    using frame_trans [OF frame_unregisterHandler Cons.IH] by simp
qed

lemma frame_invoke: "frame s (invoke e sg h s)"
proof (cases "member_of e sg h s")
  case None
  then show ?thesis by (simp add: invoke_def)
next
  case (Some m)
  obtain c cb where m: "m = (c, cb)" by (cases m)
  have a: "frame s (foldl (\<lambda>s' h. unregisterHandler h s') (emit c s) (unregisters cb))"
    by (rule frame_trans [OF frame_emit frame_unregister_all])
  show ?thesis
    using a Some m
    by (auto simp: invoke_def run_callback_def split: option.splits intro: frame_trans [OF a frame_logger])
qed

lemma frame_for_handlers: "frame s (for_handlers e sg i s)"
proof (induction e sg i s rule: for_handlers.induct)
  case (1 e sg i s)
  show ?case
  proof (cases "i < length (handlers s)")
    case True
    with 1 have "frame (invoke e sg (handlers s ! i) s) (for_handlers e sg i s)"
      by (simp add: for_handlers.simps [of e sg i s])
    then show ?thesis by (rule frame_trans [OF frame_invoke])
  next
    case False
    then show ?thesis by (simp add: for_handlers.simps [of e sg i s])
  qed
qed

lemma adds_refl [simp]: "adds P s s"
  by (simp add: adds_def)

lemma adds_trans: "adds P s s' \<Longrightarrow> adds P s' s'' \<Longrightarrow> adds P s s''"
  by (auto simp: adds_def)

lemma adds_emit: "P c \<Longrightarrow> adds P s (emit c s)"
  by (simp add: adds_def)

lemma adds_logger: "P (Logger l m) \<Longrightarrow> adds P s (logger l m s)"
  by (simp add: adds_def)

lemma adds_unregisterHandler:
  "P (Logger DebugLevel ''Event handler unregistered'') \<Longrightarrow> adds P s (unregisterHandler h s)"
  by (simp add: unregisterHandler_def Let_def adds_def)

lemma adds_unregister_all:
  assumes "P (Logger DebugLevel ''Event handler unregistered'')"
  shows "adds P s (foldl (\<lambda>s' h. unregisterHandler h s') s hs)"
proof (induction hs arbitrary: s)
  case Nil
  show ?case by simp
next
  case (Cons h hs)
  show ?case
    using adds_trans [OF adds_unregisterHandler [of P s h] Cons.IH] assms by simp
qed

lemma member_of_cong:
  "resumeToken s' = resumeToken s \<Longrightarrow> member_of e sg h s' = member_of e sg h s"
  by (simp add: member_of_def getResumeToken_def split: signal.splits)

lemma adds_invoke:
  assumes "\<And>c cb. member_of e sg h s = Some (c, cb) \<Longrightarrow> P c"
    and "P (Logger DebugLevel ''Event handler unregistered'')"
    and "P (Logger ErrorLevel (catch_message sg))"
  shows "adds P s (invoke e sg h s)"
proof (cases "member_of e sg h s")
  case None
  then show ?thesis by (simp add: invoke_def)
next
  case (Some m)
  obtain c cb where m: "m = (c, cb)" by (cases m)
  have "P c" using assms(1) Some m by simp
  then have a: "adds P s (foldl (\<lambda>s' h. unregisterHandler h s') (emit c s) (unregisters cb))"
    using adds_trans [OF adds_emit adds_unregister_all] assms(2) by blast
  show ?thesis
  proof (cases "throws cb")
    case None
    with a Some m show ?thesis by (simp add: invoke_def run_callback_def)
  next
    case (Some x)
    have "adds P s (logger ErrorLevel (catch_message sg)
        (foldl (\<lambda>s' h. unregisterHandler h s') (emit c s) (unregisters cb)))"
      by (rule adds_trans [OF a adds_logger]) (rule assms(3))
    with Some \<open>member_of e sg h s = Some m\<close> m show ?thesis
      by (simp add: invoke_def run_callback_def)
  qed
qed

lemma adds_for_handlers:
  assumes "\<And>h c cb. member_of e sg h s = Some (c, cb) \<Longrightarrow> P c"
    and "P (Logger DebugLevel ''Event handler unregistered'')"
    and "P (Logger ErrorLevel (catch_message sg))"
  shows "adds P s (for_handlers e sg i s)"
  using assms(1,3)
proof (induction e sg i s rule: for_handlers.induct)
  case (1 e sg i s)
  show ?case
  proof (cases "i < length (handlers s)")
    case True
    let ?s1 = "invoke e sg (handlers s ! i) s"
    have tok: "resumeToken ?s1 = resumeToken s"
      using frame_invoke [of s e sg "handlers s ! i"] by (simp add: frame_def)
    have a: "adds P s ?s1"
      by (rule adds_invoke) (use 1(2,3) assms(2) in auto)
    have "adds P ?s1 (for_handlers e sg (Suc i) ?s1)"
      by (rule 1(1) [OF True]) (use 1(2,3) member_of_cong [OF tok] in auto)
    with a True show ?thesis
      by (simp add: for_handlers.simps [of e sg i s] adds_trans)
  next
    case False
    then show ?thesis by (simp add: for_handlers.simps [of e sg i s])
  qed
qed

lemma notified_append [simp]: "notified (xs @ ys) = notified xs @ notified ys"
  by (simp add: notified_def List.map_filter_def)

lemma notified_Nil [simp]: "notified [] = []"
  by (simp add: notified_def List.map_filter_def)

lemma notified_Cons: "notified (x # xs) = (case onEvent_of x of None \<Rightarrow> notified xs | Some h \<Rightarrow> h # notified xs)"
  by (simp add: notified_def List.map_filter_def split: option.splits)

lemma notified_none: "list_all (\<lambda>c. onEvent_of c = None) tr \<Longrightarrow> notified tr = []"
  by (induction tr) (simp_all add: notified_Cons)

lemma calls_since_append: "trace s' = trace s @ tr \<Longrightarrow> calls_since s s' = tr"
  by (simp add: calls_since_def)

lemma adds_calls_since: "adds P s s' \<Longrightarrow> trace s' = trace s @ calls_since s s' \<and> list_all P (calls_since s s')"
  by (auto simp: adds_def calls_since_def)

lemma subseq_drop_remove1: "subseq (drop n (remove1 h xs)) (drop n xs)"
proof (induction xs arbitrary: n)
  case Nil
  show ?case by simp
next
  case (Cons x xs)
  show ?case
  proof (cases n)
    case 0
    have "subseq (remove1 h (x # xs)) (x # xs)"
      by (cases "x = h") (auto intro: subseq_Cons' Cons.IH [of 0, simplified])
    with 0 show ?thesis by simp
  next
    case (Suc m)
    show ?thesis
    proof (cases "x = h")
      case True
      have "subseq (tl (drop m xs)) (drop m xs)"
        by (cases "drop m xs") auto
      then have "subseq (drop (Suc m) xs) (drop m xs)"
        by (simp add: tl_drop drop_Suc)
      with True Suc show ?thesis by simp
    next
      case False
      with Suc Cons.IH [of m] show ?thesis by simp
    qed
  qed
qed

lemma subseq_drop_remove_all:
  "subseq (drop n (foldl (\<lambda>xs h. remove1 h xs) xs hs)) (drop n xs)"
proof (induction hs arbitrary: xs)
  case Nil
  show ?case by simp
next
  case (Cons h hs)
  have "subseq (drop n (foldl (\<lambda>xs h. remove1 h xs) (remove1 h xs) hs)) (drop n (remove1 h xs))"
    by (rule Cons.IH)
  then have "subseq (drop n (foldl (\<lambda>xs h. remove1 h xs) (remove1 h xs) hs)) (drop n xs)"
    using subseq_drop_remove1 [of n h xs] by (rule subseq_order.order_trans)
  then show ?case by simp
qed

lemma subseq_handlers_invoke:
  "subseq (drop n (handlers (invoke e sg h s))) (drop n (handlers s))"
  by (simp add: handlers_invoke subseq_drop_remove_all split: option.splits prod.splits)

lemma notified_invoke:
  "\<exists>tr. trace (invoke e (EventSignal ev) h s) = trace s @ tr \<and> notified tr = [h]"
proof -
  let ?P = "\<lambda>c. onEvent_of c = None"
  let ?cb = "onEvent e h ev"
  let ?s0 = "emit (OnEvent h ev (getResumeToken s)) s"
  let ?s1 = "foldl (\<lambda>s' h. unregisterHandler h s') ?s0 (unregisters ?cb)"
  have "adds ?P ?s0 ?s1" by (rule adds_unregister_all) simp
  then obtain tr where tr: "trace ?s1 = trace ?s0 @ tr" "list_all ?P tr"
    by (auto simp: adds_def)
  then have n: "notified tr = []" by (simp add: notified_none)
  show ?thesis
  proof (cases "throws ?cb")
    case None
    then have "trace (invoke e (EventSignal ev) h s) = trace s @ (OnEvent h ev (getResumeToken s) # tr)"
      using tr by (simp add: invoke_def member_of_def run_callback_def)
    moreover have "notified (OnEvent h ev (getResumeToken s) # tr) = [h]"
      using n by (simp add: notified_Cons)
    ultimately show ?thesis by blast
  next
    case (Some x)
    then have "trace (invoke e (EventSignal ev) h s) =
        trace s @ (OnEvent h ev (getResumeToken s) # tr @ [Logger ErrorLevel (catch_message (EventSignal ev))])"
      using tr by (simp add: invoke_def member_of_def run_callback_def)
    moreover have "notified (OnEvent h ev (getResumeToken s) # tr @ [Logger ErrorLevel (catch_message (EventSignal ev))]) = [h]"
      using n by (simp add: notified_Cons)
    ultimately show ?thesis by blast
  qed
qed

lemma notified_for_handlers:
  "\<exists>tr. trace (for_handlers e (EventSignal ev) i s) = trace s @ tr \<and>
        subseq (notified tr) (drop i (handlers s))"
proof (induction e "EventSignal ev" i s rule: for_handlers.induct)
  case (1 e i s)
  show ?case
  proof (cases "i < length (handlers s)")
    case True
    let ?h = "handlers s ! i"
    let ?s1 = "invoke e (EventSignal ev) ?h s"
    obtain tr1 where tr1: "trace ?s1 = trace s @ tr1" "notified tr1 = [?h]"
      using notified_invoke by blast
    obtain tr2 where tr2: "trace (for_handlers e (EventSignal ev) (Suc i) ?s1) = trace ?s1 @ tr2"
        "subseq (notified tr2) (drop (Suc i) (handlers ?s1))"
      using 1 [OF True] by blast
    have "subseq (notified tr2) (drop (Suc i) (handlers s))"
      using tr2(2) subseq_handlers_invoke [of "Suc i" e "EventSignal ev" ?h s]
      by (rule subseq_order.order_trans)
    then have "subseq (?h # notified tr2) (drop i (handlers s))"
      using True by (simp add: Cons_nth_drop_Suc [symmetric])
    then have "subseq (notified (tr1 @ tr2)) (drop i (handlers s))"
      using tr1(2) by simp
    moreover have "trace (for_handlers e (EventSignal ev) i s) = trace s @ (tr1 @ tr2)"
      using True tr1(1) tr2(1) by (simp add: for_handlers.simps [of e "EventSignal ev" i s])
    ultimately show ?thesis by blast
  next
    case False
    then show ?thesis by (simp add: for_handlers.simps [of e "EventSignal ev" i s])
  qed
qed

lemma invoke_plain:
  assumes "unregisters (onEvent e h ev) = []"
  shows "invoke e (EventSignal ev) h s = s\<lparr>trace := trace s @ event_calls e ev (resumeToken s) [h]\<rparr>"
  using assms
  by (simp add: invoke_def member_of_def run_callback_def event_calls_def emit_def logger_def
        catch_message_def getResumeToken_def split: option.splits)

lemma for_handlers_plain:
  assumes "\<forall>h \<in> set (drop i (handlers s)). unregisters (onEvent e h ev) = []"
  shows "for_handlers e (EventSignal ev) i s =
         s\<lparr>trace := trace s @ event_calls e ev (resumeToken s) (drop i (handlers s))\<rparr>"
  using assms
proof (induction e "EventSignal ev" i s rule: for_handlers.induct)
  case (1 e i s)
  show ?case
  proof (cases "i < length (handlers s)")
    case True
    let ?h = "handlers s ! i"
    let ?s1 = "s\<lparr>trace := trace s @ event_calls e ev (resumeToken s) [?h]\<rparr>"
    have d: "drop i (handlers s) = ?h # drop (Suc i) (handlers s)"
      using True by (simp add: Cons_nth_drop_Suc)
    have u: "unregisters (onEvent e ?h ev) = []"
      using 1(2) d by simp
    have inv: "invoke e (EventSignal ev) ?h s = ?s1"
      by (rule invoke_plain [OF u])
    have "for_handlers e (EventSignal ev) (Suc i) ?s1 =
        ?s1\<lparr>trace := trace ?s1 @ event_calls e ev (resumeToken ?s1) (drop (Suc i) (handlers ?s1))\<rparr>"
      using 1(1) [OF True] 1(2) d inv by simp
    then show ?thesis
      using True inv d
      by (simp add: for_handlers.simps [of e "EventSignal ev" i s] event_calls_def)
  next
    case False
    then show ?thesis
      by (simp add: for_handlers.simps [of e "EventSignal ev" i s] event_calls_def)
  qed
qed

lemma notified_event_calls [simp]: "notified (event_calls e ev tok hs) = hs"
  by (induction hs) (simp_all add: event_calls_def notified_Cons split: option.splits)

lemma handlers_registerHandler:
  "handlers (registerHandler h s) = (if h \<in> set (handlers s) then handlers s else handlers s @ [h])"
  by (simp add: registerHandler_def)

lemma distinct_registerHandler: "distinct (handlers s) \<Longrightarrow> distinct (handlers (registerHandler h s))"
  by (simp add: handlers_registerHandler)

lemma distinct_register_all: "distinct (handlers s) \<Longrightarrow> distinct (handlers (register_all hs s))"
  unfolding register_all_def
  by (induction hs arbitrary: s) (simp_all add: distinct_registerHandler)

lemma set_register_all: "set (handlers (register_all hs s)) = set (handlers s) \<union> set hs"
  unfolding register_all_def
  by (induction hs arbitrary: s) (auto simp: handlers_registerHandler)

lemma registerHandler_twice: "registerHandler h (registerHandler h s) = registerHandler h s"
  by (simp add: registerHandler_def)

lemma distinct_subseq: "subseq xs ys \<Longrightarrow> distinct ys \<Longrightarrow> distinct xs"
  using subseqs_distinctD [of xs ys] by simp

lemma set_subseq: "subseq xs ys \<Longrightarrow> set xs \<subseteq> set ys"
  using list_emb_set [of "(=)" xs ys] by auto

lemma notified_notifyHandlers:
  "subseq (notified (calls_since s (notifyHandlers e ev s))) (handlers s)"
proof -
  obtain tr where "trace (notifyHandlers e ev s) = trace s @ tr" "subseq (notified tr) (drop 0 (handlers s))"
    unfolding notifyHandlers_def using notified_for_handlers by blast
  then show ?thesis by (simp add: calls_since_append)
qed

lemma notifyHandlers_plain:
  assumes "\<forall>h \<in> set (handlers s). unregisters (onEvent e h ev) = []"
  shows "notifyHandlers e ev s = s\<lparr>trace := trace s @ event_calls e ev (resumeToken s) (handlers s)\<rparr>"
  unfolding notifyHandlers_def using for_handlers_plain [of 0 s e ev] assms by simp

lemma watch_calls_append [simp]: "watch_calls (xs @ ys) = watch_calls xs @ watch_calls ys"
  by (simp add: watch_calls_def)

lemma close_calls_append [simp]: "close_calls (xs @ ys) = close_calls xs @ close_calls ys"
  by (simp add: close_calls_def)

lemma handleChange_ok:
  assumes "hook e (hook_for (c_operationType c)) (to_event c) = None"
  shows "handleChange e n c s =
     Some (notifyHandlers e (to_event c)
       (emit (Hook (hook_for (c_operationType c)) (to_event c) (resumeToken (store_token c s)))
          (store_token c s)))"
  using assms by (simp add: handleChange_def Let_def to_event_def getResumeToken_def)

lemma store_token_fields [simp]:
  "handlers (store_token c s) = handlers s"
  "trace (store_token c s) = trace s"
  "watching (store_token c s) = watching s"
  "changeStream (store_token c s) = changeStream s"
  "reconnectAttempts (store_token c s) = reconnectAttempts s"
  "cdcOptions (store_token c s) = cdcOptions s"
  by (simp_all add: store_token_def split: option.splits)

lemma start_keeps:
  "resumeToken (snd (start e s)) = resumeToken s \<and> handlers (snd (start e s)) = handlers s \<and>
   cdcOptions (snd (start e s)) = cdcOptions s"
  by (simp add: start_def Let_def logger_def emit_def split: option.splits)

lemma stop_keeps:
  "resumeToken (snd (stop e s)) = resumeToken s \<and> handlers (snd (stop e s)) = handlers s \<and>
   cdcOptions (snd (stop e s)) = cdcOptions s \<and>
   reconnectAttempts (snd (stop e s)) = reconnectAttempts s"
  by (simp add: stop_def Let_def logger_def emit_def split: option.splits)

lemma adds_start:
  assumes "P (watch_call (cdcOptions s))" and "\<And>l m. P (Logger l m)"
  shows "adds P s (snd (start e s))"
  using assms by (simp add: start_def Let_def adds_def split: option.splits)

lemma reconnect_wait_keeps:
  "resumeToken (reconnect_wait s) = resumeToken s \<and> handlers (reconnect_wait s) = handlers s \<and>
   cdcOptions (reconnect_wait s) = cdcOptions s \<and> watching (reconnect_wait s) = watching s \<and>
   changeStream (reconnect_wait s) = changeStream s \<and>
   reconnectAttempts (reconnect_wait s) = Suc (reconnectAttempts s)"
  by (simp add: reconnect_wait_def Let_def logger_def emit_def)

lemma adds_reconnect_wait:
  assumes "\<And>l m. P (Logger l m)" and "\<And>d. P (SetTimeout d)"
  shows "adds P s (reconnect_wait s)"
  using assms by (simp add: reconnect_wait_def Let_def adds_def)

lemma carry_token_keeps [simp]:
  "resumeToken (carry_token s) = resumeToken s"
  "handlers (carry_token s) = handlers s"
  "trace (carry_token s) = trace s"
  "watching (carry_token s) = watching s"
  "changeStream (carry_token s) = changeStream s"
  "reconnectAttempts (carry_token s) = reconnectAttempts s"
  by (simp_all add: carry_token_def split: option.splits)

lemma carry_token_again:
  assumes "resumeToken s' = resumeToken s" and "cdcOptions s' = cdcOptions (carry_token s)"
  shows "cdcOptions (carry_token s') = cdcOptions (carry_token s)"
  using assms by (simp add: carry_token_def split: option.splits)

lemma reconnect_resume_adds:
  assumes "reconnect_resume e n s = Some s'"
    and "P (watch_call (cdcOptions (carry_token s)))"
    and "\<And>l m. P (Logger l m)" and "\<And>d. P (SetTimeout d)"
  shows "adds P s s' \<and> resumeToken s' = resumeToken s \<and> handlers s' = handlers s \<and>
         cdcOptions s' = cdcOptions (carry_token s)"
  using assms(1,2)
proof (induction n arbitrary: s)
  case 0
  then show ?case by simp
next
  case (Suc n)
  let ?s1 = "carry_token s"
  obtain r s2 where st: "start e ?s1 = (r, s2)" by (cases "start e ?s1")
  have k2: "resumeToken s2 = resumeToken s \<and> handlers s2 = handlers s \<and> cdcOptions s2 = cdcOptions ?s1"
    using start_keeps [of e ?s1] st by simp
  have "adds P ?s1 s2"
    using adds_start [of P ?s1 e] Suc.prems(2) assms(3) st by simp
  then have a2: "adds P s s2" by (simp add: adds_def)
  show ?case
  proof (cases r)
    case None
    then have "s' = logger LogLevel ''Reconnected successfully'' s2"
      using Suc.prems(1) st by simp
    then show ?thesis
      using k2 adds_trans [OF a2 adds_logger [of P]] assms(3) by (simp add: logger_def emit_def)
  next
    case (Some x)
    let ?s3 = "logger ErrorLevel ''Reconnection failed'' s2"
    have a3: "adds P s ?s3"
      using adds_trans [OF a2 adds_logger [of P]] assms(3) by blast
    have k3: "resumeToken ?s3 = resumeToken s \<and> handlers ?s3 = handlers s \<and> cdcOptions ?s3 = cdcOptions ?s1"
      using k2 by (simp add: logger_def emit_def)
    show ?thesis
    proof (cases "shouldReconnect ?s3")
      case True
      let ?s4 = "reconnect_wait ?s3"
      have r4: "reconnect_resume e n ?s4 = Some s'"
        using Suc.prems(1) st Some True by simp
      have k4: "resumeToken ?s4 = resumeToken s \<and> handlers ?s4 = handlers s \<and> cdcOptions ?s4 = cdcOptions ?s1"
        using k3 reconnect_wait_keeps [of ?s3] by simp
      have c4: "cdcOptions (carry_token ?s4) = cdcOptions ?s1"
        using carry_token_again [of ?s4 s] k4 by simp
      have a4: "adds P s ?s4"
        by (rule adds_trans [OF a3 adds_reconnect_wait]) (rule assms(3), rule assms(4))
      have "adds P ?s4 s' \<and> resumeToken s' = resumeToken ?s4 \<and> handlers s' = handlers ?s4 \<and>
          cdcOptions s' = cdcOptions (carry_token ?s4)"
        using Suc.IH [OF r4] c4 Suc.prems(2) by simp
      then show ?thesis
        using a4 k4 c4 by (auto intro: adds_trans)
    next
      case False
      then have "s' = logger ErrorLevel ''Maximum reconnection attempts reached'' ?s3"
        using Suc.prems(1) st Some by simp
      then show ?thesis
        using k3 adds_trans [OF a3 adds_logger [of P]] assms(3) by (simp add: logger_def emit_def)
    qed
  qed
qed

lemma reconnect_adds:
  assumes "reconnect e n s = Some s'"
    and "P (watch_call (cdcOptions (carry_token s)))"
    and "\<And>l m. P (Logger l m)" and "\<And>d. P (SetTimeout d)"
  shows "adds P s s' \<and> resumeToken s' = resumeToken s \<and> handlers s' = handlers s \<and>
         cdcOptions s' = cdcOptions (carry_token s)"
proof -
  let ?w = "reconnect_wait s"
  have k: "resumeToken ?w = resumeToken s \<and> handlers ?w = handlers s \<and> cdcOptions ?w = cdcOptions s"
    using reconnect_wait_keeps [of s] by simp
  then have c: "cdcOptions (carry_token ?w) = cdcOptions (carry_token s)"
    by (simp add: carry_token_def split: option.splits)
  have "adds P ?w s' \<and> resumeToken s' = resumeToken ?w \<and> handlers s' = handlers ?w \<and>
      cdcOptions s' = cdcOptions (carry_token ?w)"
    by (rule reconnect_resume_adds) (use assms c in \<open>simp_all add: reconnect_def\<close>)
  moreover have "adds P s ?w"
    by (rule adds_reconnect_wait) (rule assms(3), rule assms(4))
  ultimately show ?thesis
    using k c by (auto intro: adds_trans)
qed

lemma carry_token_cong:
  "resumeToken s' = resumeToken s \<Longrightarrow> cdcOptions s' = cdcOptions s \<Longrightarrow>
   cdcOptions (carry_token s') = cdcOptions (carry_token s)"
  by (simp add: carry_token_def split: option.splits)

lemma handleError_adds:
  assumes "handleError e n x s = Some s'"
    and "P (watch_call (cdcOptions (carry_token s)))"
    and "\<And>l m. P (Logger l m)" and "\<And>d. P (SetTimeout d)" and "\<And>h. P (OnError h x)"
  shows "adds P s s' \<and> resumeToken s' = resumeToken s \<and>
         (cdcOptions s' = cdcOptions s \<or> cdcOptions s' = cdcOptions (carry_token s))"
proof -
  let ?s1 = "logger ErrorLevel ''CDC service error'' s"
  let ?s2 = "for_handlers e (ErrorSignal x) 0 ?s1"
  have f: "frame ?s1 ?s2" by (rule frame_for_handlers)
  then have k2: "resumeToken ?s2 = resumeToken s \<and> cdcOptions ?s2 = cdcOptions s"
    by (simp add: frame_def logger_def emit_def)
  then have c2: "cdcOptions (carry_token ?s2) = cdcOptions (carry_token s)"
    by (simp add: carry_token_def split: option.splits)
  have "adds P ?s1 ?s2"
    by (rule adds_for_handlers) (use assms(3,5) in \<open>auto simp: member_of_def\<close>)
  then have a2: "adds P s ?s2"
    using adds_trans [OF adds_logger [of P]] assms(3) by blast
  show ?thesis
  proof (cases "autoReconnect (cdcOptions ?s2) = Some True \<and> shouldReconnect ?s2")
    case True
    then have "reconnect e n ?s2 = Some s'"
      using assms(1) by (simp add: handleError_def Let_def)
    then have "adds P ?s2 s' \<and> resumeToken s' = resumeToken ?s2 \<and> handlers s' = handlers ?s2 \<and>
        cdcOptions s' = cdcOptions (carry_token ?s2)"
      by (rule reconnect_adds) (use assms(2,3,4) c2 in simp_all)
    then show ?thesis
      using a2 k2 c2 by (auto intro: adds_trans)
  next
    case False
    then have "s' = ?s2"
      using assms(1) by (auto simp: handleError_def Let_def)
    then show ?thesis using a2 k2 by simp
  qed
qed

lemma handleClose_adds:
  assumes "handleClose e n s = Some s'"
    and "P (watch_call (cdcOptions (carry_token s)))"
    and "\<And>l m. P (Logger l m)" and "\<And>d. P (SetTimeout d)" and "\<And>h. P (OnClose h)"
  shows "adds P s s' \<and> resumeToken s' = resumeToken s \<and>
         (cdcOptions s' = cdcOptions s \<or> cdcOptions s' = cdcOptions (carry_token s))"
proof -
  let ?s1 = "(logger LogLevel ''Change stream closed'' s)\<lparr>watching := False\<rparr>"
  let ?s2 = "for_handlers e CloseSignal 0 ?s1"
  have f: "frame ?s1 ?s2" by (rule frame_for_handlers)
  then have k2: "resumeToken ?s2 = resumeToken s \<and> cdcOptions ?s2 = cdcOptions s"
    by (simp add: frame_def logger_def emit_def)
  then have c2: "cdcOptions (carry_token ?s2) = cdcOptions (carry_token s)"
    by (simp add: carry_token_def split: option.splits)
  have "adds P ?s1 ?s2"
    by (rule adds_for_handlers) (use assms(3,5) in \<open>auto simp: member_of_def\<close>)
  moreover have "adds P s ?s1"
    using assms(3) by (simp add: adds_def logger_def emit_def)
  ultimately have a2: "adds P s ?s2"
    by (rule adds_trans [rotated])
  show ?thesis
  proof (cases "autoReconnect (cdcOptions ?s2) = Some True \<and> shouldReconnect ?s2")
    case True
    then have "reconnect e n ?s2 = Some s'"
      using assms(1) by (simp add: handleClose_def Let_def)
    then have "adds P ?s2 s' \<and> resumeToken s' = resumeToken ?s2 \<and> handlers s' = handlers ?s2 \<and>
        cdcOptions s' = cdcOptions (carry_token ?s2)"
      by (rule reconnect_adds) (use assms(2,3,4) c2 in simp_all)
    then show ?thesis
      using a2 k2 c2 by (auto intro: adds_trans)
  next
    case False
    then have "s' = ?s2"
      using assms(1) by (auto simp: handleClose_def Let_def)
    then show ?thesis using a2 k2 by simp
  qed
qed

lemma store_token_resumeToken:
  "resumeToken (store_token c s) = (case c_id c of None \<Rightarrow> resumeToken s | Some t \<Rightarrow> Some t)"
  by (simp add: store_token_def split: option.splits)

lemma handleChange_adds:
  assumes "handleChange e n c s = Some s'"
    and "P (watch_call (cdcOptions (carry_token (store_token c s))))"
    and "\<And>l m. P (Logger l m)" and "\<And>d. P (SetTimeout d)" and "\<And>h x. P (OnError h x)"
    and "\<And>h. hook e (hook_for (c_operationType c)) (to_event c) = None \<Longrightarrow>
           P (OnEvent h (to_event c) (resumeToken (store_token c s)))"
  shows "(\<exists>tr. trace s' = trace s @
            Hook (hook_for (c_operationType c)) (to_event c) (resumeToken (store_token c s)) # tr \<and>
            list_all P tr) \<and>
         resumeToken s' = resumeToken (store_token c s) \<and>
         (cdcOptions s' = cdcOptions s \<or> cdcOptions s' = cdcOptions (carry_token (store_token c s)))"
proof -
  let ?ev = "to_event c"
  let ?k = "hook_for (c_operationType c)"
  let ?s1 = "store_token c s"
  let ?s2 = "emit (Hook ?k ?ev (resumeToken ?s1)) ?s1"
  have t2: "trace ?s2 = trace s @ [Hook ?k ?ev (resumeToken ?s1)]"
    by simp
  have "adds P ?s2 s' \<and> resumeToken s' = resumeToken ?s1 \<and>
      (cdcOptions s' = cdcOptions s \<or> cdcOptions s' = cdcOptions (carry_token ?s1))"
  proof (cases "hook e ?k ?ev")
    case None
    then have s': "s' = for_handlers e (EventSignal ?ev) 0 ?s2"
      using assms(1) handleChange_ok [of e c n s] by (simp add: notifyHandlers_def)
    have "frame ?s2 s'" unfolding s' by (rule frame_for_handlers)
    then have k: "resumeToken s' = resumeToken ?s1 \<and> cdcOptions s' = cdcOptions s"
      by (simp add: frame_def emit_def)
    have "adds P ?s2 s'"
      unfolding s'
      by (rule adds_for_handlers)
        (use assms(3) assms(6) [OF None] in \<open>auto simp: member_of_def getResumeToken_def emit_def\<close>)
    with k show ?thesis by simp
  next
    case (Some x)
    let ?s3 = "logger ErrorLevel ''Error handling change event'' ?s2"
    have he: "handleError e n x ?s3 = Some s'"
      using assms(1) Some by (simp add: handleChange_def Let_def to_event_def getResumeToken_def)
    have k3: "resumeToken ?s3 = resumeToken ?s1 \<and> cdcOptions ?s3 = cdcOptions s"
      by (simp add: logger_def emit_def)
    then have c3: "cdcOptions (carry_token ?s3) = cdcOptions (carry_token ?s1)"
      using carry_token_cong [of ?s3 ?s1] by simp
    have a3: "adds P ?s2 ?s3"
      using adds_logger [of P] assms(3) by blast
    have "adds P ?s3 s' \<and> resumeToken s' = resumeToken ?s3 \<and>
        (cdcOptions s' = cdcOptions ?s3 \<or> cdcOptions s' = cdcOptions (carry_token ?s3))"
      by (rule handleError_adds [OF he]) (use assms(2,3,4,5) c3 in simp_all)
    with a3 k3 c3 show ?thesis by (auto intro: adds_trans)
  qed
  then show ?thesis
    using t2 by (auto simp: adds_def)
qed

lemma start_fail_keeps:
  assumes "start e s = (Some x, s2)"
  shows "reconnectAttempts s2 = reconnectAttempts s \<and> watching s2 = watching s"
  using assms by (auto simp: start_def Let_def logger_def emit_def split: if_splits option.splits)

lemma reconnect_resume_returns:
  assumes "num_or (maxReconnectAttempts (cdcOptions s)) 0 \<noteq> 0"
    and "nat (num_or (maxReconnectAttempts (cdcOptions s)) 0) - reconnectAttempts s < n"
  shows "reconnect_resume e n s \<noteq> None"
  using assms
proof (induction n arbitrary: s)
  case 0
  then show ?case by simp
next
  case (Suc n)
  let ?M = "num_or (maxReconnectAttempts (cdcOptions s)) 0"
  let ?s1 = "carry_token s"
  obtain r s2 where st: "start e ?s1 = (r, s2)" by (cases "start e ?s1")
  show ?case
  proof (cases r)
    case None
    with st show ?thesis by simp
  next
    case (Some x)
    let ?s3 = "logger ErrorLevel ''Reconnection failed'' s2"
    have m1: "maxReconnectAttempts (cdcOptions ?s1) = maxReconnectAttempts (cdcOptions s)"
      by (simp add: carry_token_def split: option.splits)
    have k3: "reconnectAttempts ?s3 = reconnectAttempts s \<and>
        maxReconnectAttempts (cdcOptions ?s3) = maxReconnectAttempts (cdcOptions s)"
      using start_fail_keeps [of e ?s1 x s2] start_keeps [of e ?s1] st Some m1
      by (simp add: logger_def emit_def)
    show ?thesis
    proof (cases "shouldReconnect ?s3")
      case True
      let ?s4 = "reconnect_wait ?s3"
      have lt: "int (reconnectAttempts s) < ?M"
        using True k3 Suc.prems(1) by (simp add: shouldReconnect_def Let_def)
      have k4: "reconnectAttempts ?s4 = Suc (reconnectAttempts s) \<and>
          maxReconnectAttempts (cdcOptions ?s4) = maxReconnectAttempts (cdcOptions s)"
        using k3 reconnect_wait_keeps [of ?s3] by simp
      have "nat ?M - reconnectAttempts ?s4 < n"
        using lt Suc.prems(2) k4 by simp
      then have "reconnect_resume e n ?s4 \<noteq> None"
        using Suc.IH [of ?s4] Suc.prems(1) k4 by simp
      then show ?thesis using st Some True by simp
    next
      case False
      then show ?thesis using st Some by simp
    qed
  qed
qed

lemma handleError_returns:
  assumes "num_or (maxReconnectAttempts (cdcOptions s)) 0 \<noteq> 0"
    and "nat (num_or (maxReconnectAttempts (cdcOptions s)) 0) - reconnectAttempts s < n"
  shows "handleError e n x s \<noteq> None"
proof -
  let ?s2 = "for_handlers e (ErrorSignal x) 0 (logger ErrorLevel ''CDC service error'' s)"
  have "frame (logger ErrorLevel ''CDC service error'' s) ?s2" by (rule frame_for_handlers)
  then have k: "reconnectAttempts ?s2 = reconnectAttempts s \<and> cdcOptions ?s2 = cdcOptions s"
    by (simp add: frame_def logger_def emit_def)
  then have "reconnect_resume e n (reconnect_wait ?s2) \<noteq> None"
    using assms reconnect_wait_keeps [of ?s2] by (intro reconnect_resume_returns) simp_all
  then show ?thesis
    by (simp add: handleError_def Let_def reconnect_def)
qed

lemma handleClose_returns:
  assumes "num_or (maxReconnectAttempts (cdcOptions s)) 0 \<noteq> 0"
    and "nat (num_or (maxReconnectAttempts (cdcOptions s)) 0) - reconnectAttempts s < n"
  shows "handleClose e n s \<noteq> None"
proof -
  let ?s1 = "(logger LogLevel ''Change stream closed'' s)\<lparr>watching := False\<rparr>"
  let ?s2 = "for_handlers e CloseSignal 0 ?s1"
  have "frame ?s1 ?s2" by (rule frame_for_handlers)
  then have k: "reconnectAttempts ?s2 = reconnectAttempts s \<and> cdcOptions ?s2 = cdcOptions s"
    by (simp add: frame_def logger_def emit_def)
  then have "reconnect_resume e n (reconnect_wait ?s2) \<noteq> None"
    using assms reconnect_wait_keeps [of ?s2] by (intro reconnect_resume_returns) simp_all
  then show ?thesis
    by (simp add: handleClose_def Let_def reconnect_def)
qed

lemma handleChange_returns:
  assumes "hook e (hook_for (c_operationType c)) (to_event c) = None \<or>
      (num_or (maxReconnectAttempts (cdcOptions s)) 0 \<noteq> 0 \<and>
       nat (num_or (maxReconnectAttempts (cdcOptions s)) 0) - reconnectAttempts s < n)"
  shows "handleChange e n c s \<noteq> None"
proof (cases "hook e (hook_for (c_operationType c)) (to_event c)")
  case None
  then show ?thesis by (simp add: handleChange_ok)
next
  case (Some x)
  let ?s3 = "logger ErrorLevel ''Error handling change event''
      (emit (Hook (hook_for (c_operationType c)) (to_event c) (resumeToken (store_token c s)))
        (store_token c s))"
  have "handleError e n x ?s3 \<noteq> None"
    using assms Some by (intro handleError_returns) (simp_all add: logger_def emit_def)
  then show ?thesis
    using Some by (simp add: handleChange_def Let_def to_event_def getResumeToken_def)
qed

lemma stream_request_resumeAfter:
  "resumeAfter opts = Some t \<Longrightarrow> cs_resumeAfter (stream_request opts) = Some t"
  by (simp add: stream_request_def Let_def split: option.splits)

lemma cdcOptions_carry_token:
  "resumeToken s = Some t \<Longrightarrow> resumeAfter (cdcOptions (carry_token s)) = Some t"
  by (simp add: carry_token_def)

lemma adds_set:
  assumes "adds P s s'"
  shows "\<forall>c \<in> set (calls_since s s'). P c"
  using adds_calls_since [OF assms] by (simp add: list_all_iff)

lemma start_not_watching:
  assumes "\<not> watching s"
  shows "\<exists>tr. trace (snd (start e s)) = trace s @ watch_call (cdcOptions s) # tr"
  using assms by (simp add: start_def Let_def split: option.splits)

lemma reconnect_resume_tail:
  assumes "reconnect_resume e (Suc m) s = Some s'"
  shows "adds (\<lambda>c. True) (snd (start e (carry_token s))) s'"
proof -
  let ?P = "\<lambda>c::call. True"
  obtain r s2 where st: "start e (carry_token s) = (r, s2)" by (cases "start e (carry_token s)")
  show ?thesis
  proof (cases r)
    case None
    then have "s' = logger LogLevel ''Reconnected successfully'' s2"
      using assms st by simp
    then show ?thesis using st by (simp add: adds_def)
  next
    case (Some x)
    let ?s3 = "logger ErrorLevel ''Reconnection failed'' s2"
    have a3: "adds ?P s2 ?s3" by (simp add: adds_def)
    show ?thesis
    proof (cases "shouldReconnect ?s3")
      case True
      then have "reconnect_resume e m (reconnect_wait ?s3) = Some s'"
        using assms st Some by simp
      then have "adds ?P (reconnect_wait ?s3) s'"
        using reconnect_resume_adds [of e m "reconnect_wait ?s3" s' ?P] by simp
      moreover have "adds ?P ?s3 (reconnect_wait ?s3)"
        by (rule adds_reconnect_wait) simp_all
      ultimately show ?thesis
        using a3 st by (auto intro: adds_trans)
    next
      case False
      then have "s' = logger ErrorLevel ''Maximum reconnection attempts reached'' ?s3"
        using assms st Some by simp
      then show ?thesis using st by (simp add: adds_def)
    qed
  qed
qed

lemma reconnect_reopens:
  assumes "reconnect e n s = Some s'" and "\<not> watching s"
  shows "watch_call (cdcOptions (carry_token s)) \<in> set (calls_since s s')"
proof -
  let ?w = "reconnect_wait s"
  obtain m where n: "n = Suc m"
    using assms(1) by (cases n) (simp_all add: reconnect_def)
  have rr: "reconnect_resume e (Suc m) ?w = Some s'"
    using assms(1) n by (simp add: reconnect_def)
  have kw: "\<not> watching (carry_token ?w) \<and> cdcOptions (carry_token ?w) = cdcOptions (carry_token s)"
    using assms(2) reconnect_wait_keeps [of s] carry_token_cong [of ?w s] by simp
  obtain tr0 where tr0: "trace ?w = trace s @ tr0"
    using adds_reconnect_wait [of "\<lambda>c. True" s] by (auto simp: adds_def)
  obtain tr1 where tr1: "trace (snd (start e (carry_token ?w))) =
      trace (carry_token ?w) @ watch_call (cdcOptions (carry_token ?w)) # tr1"
    using start_not_watching [of "carry_token ?w" e] kw by blast
  obtain tr2 where tr2: "trace s' = trace (snd (start e (carry_token ?w))) @ tr2"
    using reconnect_resume_tail [OF rr] by (auto simp: adds_def)
  have "trace s' = trace s @ (tr0 @ watch_call (cdcOptions (carry_token s)) # tr1 @ tr2)"
    using tr0 tr1 tr2 kw by simp
  then have "calls_since s s' = tr0 @ watch_call (cdcOptions (carry_token s)) # tr1 @ tr2"
    by (rule calls_since_append)
  then show ?thesis by simp
qed

lemma reconnect_returns:
  assumes "num_or (maxReconnectAttempts (cdcOptions s)) 0 \<noteq> 0"
    and "nat (num_or (maxReconnectAttempts (cdcOptions s)) 0) - reconnectAttempts s < n"
  shows "reconnect e n s \<noteq> None"
  unfolding reconnect_def
  using assms reconnect_wait_keeps [of s] by (intro reconnect_resume_returns) simp_all

lemma handleChange_plain:
  assumes "\<forall>h \<in> set (handlers s). unregisters (onEvent e h (to_event c)) = []"
    and "hook e (hook_for (c_operationType c)) (to_event c) = None"
  shows "handleChange e n c s =
     Some ((store_token c s)\<lparr>trace := trace s @
        Hook (hook_for (c_operationType c)) (to_event c) (resumeToken (store_token c s)) #
        event_calls e (to_event c) (resumeToken (store_token c s)) (handlers s)\<rparr>)"
proof -
  let ?ev = "to_event c"
  let ?s1 = "store_token c s"
  let ?s2 = "emit (Hook (hook_for (c_operationType c)) ?ev (resumeToken ?s1)) ?s1"
  have "\<forall>h \<in> set (handlers ?s2). unregisters (onEvent e h ?ev) = []"
    using assms(1) by simp
  then have "notifyHandlers e ?ev ?s2 =
      ?s2\<lparr>trace := trace ?s2 @ event_calls e ?ev (resumeToken ?s2) (handlers ?s2)\<rparr>"
    by (rule notifyHandlers_plain)
  then show ?thesis
    using handleChange_ok [OF assms(2)] by (simp add: emit_def)
qed

lemma handleChange_failed:
  assumes "hook e (hook_for (c_operationType c)) (to_event c) = Some x"
  shows "handleChange e n c s =
     handleError e n x
       (logger ErrorLevel ''Error handling change event''
          (emit (Hook (hook_for (c_operationType c)) (to_event c) (getResumeToken (store_token c s)))
             (store_token c s)))"
  using assms by (simp add: handleChange_def Let_def to_event_def)

lemma stop_ok_not_watching: "fst (stop e w) = None \<Longrightarrow> \<not> watching (snd (stop e w))"
  by (auto simp: stop_def Let_def logger_def emit_def split: if_splits option.splits)

lemma reconnect_resume_reopens:
  assumes "reconnect_resume e n s = Some s'" and "\<not> watching s"
  shows "watch_call (cdcOptions (carry_token s)) \<in> set (calls_since s s')"
proof -
  obtain m where n: "n = Suc m"
    using assms(1) by (cases n) simp_all
  have rr: "reconnect_resume e (Suc m) s = Some s'"
    using assms(1) n by simp
  have kw: "\<not> watching (carry_token s)"
    using assms(2) by simp
  obtain tr1 where tr1: "trace (snd (start e (carry_token s))) =
      trace (carry_token s) @ watch_call (cdcOptions (carry_token s)) # tr1"
    using start_not_watching [of "carry_token s" e] kw by blast
  obtain tr2 where tr2: "trace s' = trace (snd (start e (carry_token s))) @ tr2"
    using reconnect_resume_tail [OF rr] by (auto simp: adds_def)
  have "trace s' = trace s @ (watch_call (cdcOptions (carry_token s)) # tr1 @ tr2)"
    using tr1 tr2 by simp
  then have "calls_since s s' = watch_call (cdcOptions (carry_token s)) # tr1 @ tr2"
    by (rule calls_since_append)
  then show ?thesis by simp
qed

text \<open>
  A close or error signal that reconnects is its part before the timer followed by the
  part of \<^verbatim>\<open>reconnect\<close> after the timer.
\<close>

lemma handleClose_split:
  assumes "autoReconnect (cdcOptions s) = Some True" and "shouldReconnect s"
  shows "handleClose e n s = reconnect_resume e n (handleClose_until_wait e s)"
proof -
  let ?s1 = "(logger LogLevel ''Change stream closed'' s)\<lparr>watching := False\<rparr>"
  let ?s2 = "for_handlers e CloseSignal 0 ?s1"
  have "frame ?s1 ?s2" by (rule frame_for_handlers)
  then have "cdcOptions ?s2 = cdcOptions s \<and> reconnectAttempts ?s2 = reconnectAttempts s"
    by (simp add: frame_def logger_def emit_def)
  then have "autoReconnect (cdcOptions ?s2) = Some True \<and> shouldReconnect ?s2"
    using assms by (simp add: shouldReconnect_def)
  then show ?thesis
    by (simp add: handleClose_def handleClose_until_wait_def reconnect_def Let_def)
qed

lemma handleError_split:
  assumes "autoReconnect (cdcOptions s) = Some True" and "shouldReconnect s"
  shows "handleError e n x s = reconnect_resume e n (handleError_until_wait e x s)"
proof -
  let ?s1 = "logger ErrorLevel ''CDC service error'' s"
  let ?s2 = "for_handlers e (ErrorSignal x) 0 ?s1"
  have "frame ?s1 ?s2" by (rule frame_for_handlers)
  then have "cdcOptions ?s2 = cdcOptions s \<and> reconnectAttempts ?s2 = reconnectAttempts s"
    by (simp add: frame_def logger_def emit_def)
  then have "autoReconnect (cdcOptions ?s2) = Some True \<and> shouldReconnect ?s2"
    using assms by (simp add: shouldReconnect_def)
  then show ?thesis
    by (simp add: handleError_def handleError_until_wait_def reconnect_def Let_def)
qed

lemma watching_handleClose_until_wait: "\<not> watching (handleClose_until_wait e s)"
proof -
  let ?s1 = "(logger LogLevel ''Change stream closed'' s)\<lparr>watching := False\<rparr>"
  have "frame ?s1 (for_handlers e CloseSignal 0 ?s1)" by (rule frame_for_handlers)
  then show ?thesis
    using reconnect_wait_keeps [of "for_handlers e CloseSignal 0 ?s1"]
    by (simp add: handleClose_until_wait_def frame_def)
qed

lemma handlers_invoke_event:
  "handlers (invoke e (EventSignal ev) h s) =
     foldl (\<lambda>xs h. remove1 h xs) (handlers s) (unregisters (onEvent e h ev))"
  by (simp add: handlers_invoke member_of_def)

lemma for_handlers_without_throws:
  assumes "handlers s' = handlers s"
  shows "handlers (for_handlers (without_throws e) (EventSignal ev) i s') =
           handlers (for_handlers e (EventSignal ev) i s) \<and>
         (\<exists>tr tr'. trace (for_handlers e (EventSignal ev) i s) = trace s @ tr \<and>
            trace (for_handlers (without_throws e) (EventSignal ev) i s') = trace s' @ tr' \<and>
            notified tr' = notified tr)"
  using assms
proof (induction e "EventSignal ev" i s arbitrary: s' rule: for_handlers.induct)
  case (1 e i s)
  let ?e' = "without_throws e"
  let ?sg = "EventSignal ev"
  show ?case
  proof (cases "i < length (handlers s)")
    case True
    let ?h = "handlers s ! i"
    let ?s1 = "invoke e ?sg ?h s"
    let ?s1' = "invoke ?e' ?sg ?h s'"
    have h1: "handlers ?s1' = handlers ?s1"
      using 1(2) by (simp add: handlers_invoke_event without_throws_def)
    obtain tr1 where tr1: "trace ?s1 = trace s @ tr1" "notified tr1 = [?h]"
      using notified_invoke by blast
    obtain tr1' where tr1': "trace ?s1' = trace s' @ tr1'" "notified tr1' = [?h]"
      using notified_invoke by blast
    have ih: "handlers (for_handlers ?e' ?sg (Suc i) ?s1') = handlers (for_handlers e ?sg (Suc i) ?s1) \<and>
         (\<exists>tr tr'. trace (for_handlers e ?sg (Suc i) ?s1) = trace ?s1 @ tr \<and>
            trace (for_handlers ?e' ?sg (Suc i) ?s1') = trace ?s1' @ tr' \<and>
            notified tr' = notified tr)"
      using 1(1) [OF True h1] .
    then obtain tr2 tr2' where tr2: "trace (for_handlers e ?sg (Suc i) ?s1) = trace ?s1 @ tr2"
        "trace (for_handlers ?e' ?sg (Suc i) ?s1') = trace ?s1' @ tr2'" "notified tr2' = notified tr2"
      by blast
    have u: "for_handlers e ?sg i s = for_handlers e ?sg (Suc i) ?s1"
      using True by (simp add: for_handlers.simps [of e ?sg i s])
    have u': "for_handlers ?e' ?sg i s' = for_handlers ?e' ?sg (Suc i) ?s1'"
      using True 1(2) by (simp add: for_handlers.simps [of ?e' ?sg i s'])
    have "trace (for_handlers e ?sg i s) = trace s @ (tr1 @ tr2)"
      using u tr1(1) tr2(1) by simp
    moreover have "trace (for_handlers ?e' ?sg i s') = trace s' @ (tr1' @ tr2')"
      using u' tr1'(1) tr2(2) by simp
    moreover have "notified (tr1' @ tr2') = notified (tr1 @ tr2)"
      using tr1(2) tr1'(2) tr2(3) by simp
    ultimately show ?thesis
      using ih u u' by metis
  next
    case False
    then have "for_handlers e ?sg i s = s" "for_handlers ?e' ?sg i s' = s'"
      using 1(2) by (simp_all add: for_handlers.simps [of _ ?sg i])
    then show ?thesis using 1(2) by simp
  qed
qed

lemma notifyHandlers_without_throws:
  "handlers (notifyHandlers (without_throws e) ev s) = handlers (notifyHandlers e ev s) \<and>
   notified (calls_since s (notifyHandlers (without_throws e) ev s)) =
     notified (calls_since s (notifyHandlers e ev s))"
proof -
  obtain tr tr' where "trace (notifyHandlers e ev s) = trace s @ tr"
      "trace (notifyHandlers (without_throws e) ev s) = trace s @ tr'" "notified tr' = notified tr"
    and "handlers (notifyHandlers (without_throws e) ev s) = handlers (notifyHandlers e ev s)"
    unfolding notifyHandlers_def using for_handlers_without_throws [of s s e ev 0] by auto
  then show ?thesis by (simp add: calls_since_append)
qed

subsection \<open>A handler that unregisters itself\<close>

lemma notifyHandlers_head_leaves:
  assumes "handlers s = h # h' # rest" and "unregisters (onEvent e h ev) = [h]"
    and "\<forall>k \<in> set rest. unregisters (onEvent e k ev) = []"
  shows "notified (calls_since s (notifyHandlers e ev s)) = h # rest \<and>
         handlers (notifyHandlers e ev s) = h' # rest"
proof -
  let ?s1 = "invoke e (EventSignal ev) h s"
  have h1: "handlers ?s1 = h' # rest"
    using assms(1,2) by (simp add: handlers_invoke_event)
  obtain tr1 where tr1: "trace ?s1 = trace s @ tr1" "notified tr1 = [h]"
    using notified_invoke by blast
  have "for_handlers e (EventSignal ev) 0 s = for_handlers e (EventSignal ev) (Suc 0) ?s1"
    using assms(1) by (simp add: for_handlers.simps [of e "EventSignal ev" 0 s])
  also have "\<dots> = ?s1\<lparr>trace := trace ?s1 @ event_calls e ev (resumeToken ?s1) (drop (Suc 0) (handlers ?s1))\<rparr>"
    by (rule for_handlers_plain) (simp add: h1 assms(3))
  finally have r: "notifyHandlers e ev s =
      ?s1\<lparr>trace := trace s @ (tr1 @ event_calls e ev (resumeToken ?s1) rest)\<rparr>"
    using tr1(1) h1 by (simp add: notifyHandlers_def)
  then have "calls_since s (notifyHandlers e ev s) = tr1 @ event_calls e ev (resumeToken ?s1) rest"
    by (simp add: calls_since_def)
  then show ?thesis
    using tr1(2) r h1 by simp
qed

subsection \<open>Overlapping signals\<close>

lemma held_sees: "held tok c \<Longrightarrow> sees tok c"
  by (cases c) simp_all

lemma held_watch_call [simp]: "held tok (watch_call opts)"
  by (simp add: watch_call_def)

lemma held_member_of:
  "member_of e sg h s = Some (c, cb) \<Longrightarrow> held (resumeToken s) c"
  by (cases sg) (auto simp: member_of_def getResumeToken_def)

lemma run_callback_keeps:
  "frame s (snd (run_callback cb s)) \<and> adds (held tok) s (snd (run_callback cb s))"
  using frame_unregister_all [of s "unregisters cb"]
    adds_unregister_all [of "held tok" s "unregisters cb"]
  by (simp add: run_callback_def)

lemma length_handlers_run_callback:
  "length (handlers (snd (run_callback cb s))) \<le> length (handlers s)"
  by (simp add: run_callback_def handlers_unregister_all length_remove_all)

lemma fst_spawn [simp]: "fst (spawn ts p) = fst p"
  by (cases p, cases "snd p") auto

lemma fst_continue [simp]: "fst (continue k ts p) = fst p"
  by (cases p, cases "snd p") auto

lemma next_handler_held:
  assumes "next_handler e sg i s = Some (s', t)"
  shows "adds (held (resumeToken s)) s s' \<and> resumeToken s' = resumeToken s"
  using assms
proof (induction e sg i s rule: next_handler.induct)
  case (1 e sg i s)
  from "1.prems" have i: "i < length (handlers s)"
    by (simp add: next_handler.simps [of e sg i s] split: if_splits)
  show ?case
  proof (cases "member_of e sg (handlers s ! i) s")
    case None
    with i "1.prems" have "next_handler e sg (Suc i) s = Some (s', t)"
      by (simp add: next_handler.simps [of e sg i s])
    with "1.IH" i None show ?thesis by simp
  next
    case (Some m)
    obtain c cb where m: "m = (c, cb)" by (cases m)
    let ?s0 = "emit c s"
    have s': "s' = snd (run_callback cb ?s0)"
      using "1.prems" i Some m by (simp add: next_handler.simps [of e sg i s] Let_def)
    have "adds (held (resumeToken s)) s ?s0"
      using held_member_of Some m by (auto intro: adds_emit)
    moreover have "adds (held (resumeToken s)) ?s0 s'" "frame ?s0 s'"
      using run_callback_keeps [of ?s0 cb "resumeToken s"] s' by simp_all
    ultimately show ?thesis
      by (auto intro: adds_trans simp: frame_def emit_def)
  qed
qed

lemma after_handlers_held:
  "adds (held tok) s (fst (after_handlers sg s)) \<and>
   resumeToken (fst (after_handlers sg s)) = resumeToken s"
proof -
  have "adds (held tok) s (reconnect_wait s)"
    by (rule adds_reconnect_wait) simp_all
  moreover have "adds (held tok) s s"
    by (simp add: adds_def)
  ultimately show ?thesis
    using reconnect_wait_keeps [of s] by (simp add: after_handlers_def split: signal.splits)
qed

lemma loop_from_held:
  "adds (held (resumeToken s)) s (fst (loop_from e sg i s)) \<and>
   resumeToken (fst (loop_from e sg i s)) = resumeToken s"
proof (cases "next_handler e sg i s")
  case None
  then show ?thesis
    using after_handlers_held [of "resumeToken s" s sg] by (simp add: loop_from_def)
next
  case (Some p)
  obtain s' t where p: "p = (s', t)" by (cases p)
  with Some show ?thesis
    using next_handler_held [of e sg i s s' t] by (simp add: loop_from_def)
qed

lemma held_after_logger:
  assumes "adds (held (resumeToken s)) (logger l m s) s' \<and> resumeToken s' = resumeToken (logger l m s)"
  shows "adds (held (resumeToken s)) s s' \<and> resumeToken s' = resumeToken s"
proof -
  have "adds (held (resumeToken s)) s (logger l m s)"
    by (rule adds_logger) simp
  with assms show ?thesis
    by (auto intro: adds_trans simp: logger_def emit_def)
qed

lemma resumeToken_logger [simp]: "resumeToken (logger l m s) = resumeToken s"
  by (simp add: logger_def emit_def)

lemma handleError_enter_held:
  "adds (held (resumeToken s)) s (fst (handleError_enter e x s)) \<and>
   resumeToken (fst (handleError_enter e x s)) = resumeToken s"
proof -
  let ?s1 = "logger ErrorLevel ''CDC service error'' s"
  have "adds (held (resumeToken s)) ?s1 (fst (loop_from e (ErrorSignal x) 0 ?s1)) \<and>
      resumeToken (fst (loop_from e (ErrorSignal x) 0 ?s1)) = resumeToken ?s1"
    using loop_from_held [of ?s1 e "ErrorSignal x" 0] by simp
  then show ?thesis
    unfolding handleError_enter_def by (rule held_after_logger)
qed

lemma handleClose_enter_held:
  "adds (held (resumeToken s)) s (fst (handleClose_enter e s)) \<and>
   resumeToken (fst (handleClose_enter e s)) = resumeToken s"
proof -
  let ?s1 = "(logger LogLevel ''Change stream closed'' s)\<lparr>watching := False\<rparr>"
  have "adds (held (resumeToken s)) s ?s1" "resumeToken ?s1 = resumeToken s"
    by (simp_all add: adds_def logger_def emit_def)
  then show ?thesis
    unfolding handleClose_enter_def
    using loop_from_held [of ?s1 e CloseSignal 0] by (auto intro: adds_trans)
qed

lemma stop_enter_not_watching:
  "\<not> watching s \<Longrightarrow>
     stop_enter e s = (logger WarnLevel ''CDC service is not watching'' s, None)"
  by (simp add: stop_enter_def)

lemma stop_enter_no_stream:
  "watching s \<Longrightarrow> changeStream s = None \<Longrightarrow>
     stop_enter e s =
       (logger LogLevel ''CDC service stopped successfully'' (s\<lparr>watching := False\<rparr>), None)"
  by (simp add: stop_enter_def)

lemma stop_enter_stream:
  "watching s \<Longrightarrow> changeStream s = Some cs \<Longrightarrow>
     stop_enter e s =
       (emit (Close cs) s, Some (AwaitClose (close_result e (length (close_calls (trace s))))))"
  by (simp add: stop_enter_def)

lemma stop_enter_held:
  "adds (held tok) s (fst (stop_enter e s)) \<and> resumeToken (fst (stop_enter e s)) = resumeToken s"
proof (cases "watching s")
  case False
  show ?thesis
    unfolding stop_enter_not_watching [OF False] by (simp add: adds_logger)
next
  case True
  show ?thesis
  proof (cases "changeStream s")
    case None
    have "adds (held tok) (s\<lparr>watching := False\<rparr>)
        (logger LogLevel ''CDC service stopped successfully'' (s\<lparr>watching := False\<rparr>))"
      by (rule adds_logger) simp
    then have "adds (held tok) s (logger LogLevel ''CDC service stopped successfully'' (s\<lparr>watching := False\<rparr>))"
      by (simp add: adds_def)
    then show ?thesis
      unfolding stop_enter_no_stream [OF True None] by simp
  next
    case (Some cs)
    have "adds (held tok) s (emit (Close cs) s)"
      by (rule adds_emit) simp
    moreover have "resumeToken (emit (Close cs) s) = resumeToken s"
      by (simp add: emit_def)
    ultimately show ?thesis
      unfolding stop_enter_stream [OF True Some] by simp
  qed
qed

lemma resume_task_held:
  "adds (held (resumeToken s)) s (fst (resume_task e t s)) \<and>
   resumeToken (fst (resume_task e t s)) = resumeToken s"
proof (cases t)
  case (AwaitHook ev r)
  show ?thesis
  proof (cases r)
    case None
    with AwaitHook show ?thesis using loop_from_held [of s e "EventSignal ev" 0] by simp
  next
    case (Some x)
    let ?s1 = "logger ErrorLevel ''Error handling change event'' s"
    have "adds (held (resumeToken s)) ?s1 (fst (handleError_enter e x ?s1)) \<and>
        resumeToken (fst (handleError_enter e x ?s1)) = resumeToken ?s1"
      using handleError_enter_held [of ?s1 e x] by simp
    then have "adds (held (resumeToken s)) s (fst (handleError_enter e x ?s1)) \<and>
        resumeToken (fst (handleError_enter e x ?s1)) = resumeToken s"
      by (rule held_after_logger)
    with AwaitHook Some show ?thesis by simp
  qed
next
  case (AwaitHandler sg i r)
  show ?thesis
  proof (cases r)
    case None
    with AwaitHandler show ?thesis using loop_from_held [of s e sg i] by simp
  next
    case (Some x)
    let ?s1 = "logger ErrorLevel (catch_message sg) s"
    have "adds (held (resumeToken s)) ?s1 (fst (loop_from e sg i ?s1)) \<and>
        resumeToken (fst (loop_from e sg i ?s1)) = resumeToken ?s1"
      using loop_from_held [of ?s1 e sg i] by simp
    then have "adds (held (resumeToken s)) s (fst (loop_from e sg i ?s1)) \<and>
        resumeToken (fst (loop_from e sg i ?s1)) = resumeToken s"
      by (rule held_after_logger)
    with AwaitHandler Some show ?thesis by simp
  qed
next
  case AwaitTimer
  have "adds (held (resumeToken s)) (carry_token s) (snd (start e (carry_token s)))"
    by (rule adds_start) simp_all
  then have "adds (held (resumeToken s)) s (snd (start e (carry_token s)))"
    by (simp add: adds_def)
  with AwaitTimer show ?thesis
    using start_keeps [of e "carry_token s"] by (simp add: Let_def)
next
  case (AwaitStart r)
  show ?thesis
  proof (cases r)
    case None
    with AwaitStart show ?thesis by (simp add: adds_def logger_def emit_def)
  next
    case (Some x)
    let ?s3 = "logger ErrorLevel ''Reconnection failed'' s"
    have "adds (held (resumeToken s)) ?s3 (reconnect_wait ?s3)"
      by (rule adds_reconnect_wait) simp_all
    moreover have "adds (held (resumeToken s)) s ?s3"
      by (rule adds_logger) simp
    ultimately have "adds (held (resumeToken s)) s (reconnect_wait ?s3)"
      using adds_trans by blast
    with Some AwaitStart show ?thesis
      using reconnect_wait_keeps [of ?s3] by (simp add: Let_def adds_def logger_def emit_def)
  qed
next
  case (AwaitClose r)
  then show ?thesis
    by (cases r) (simp_all add: adds_def logger_def emit_def)
qed

lemma step_held:
  assumes "no_arrival a"
  shows "adds (held (resumeToken s)) s (fst (step e a (s, ts))) \<and>
         resumeToken (fst (step e a (s, ts))) = resumeToken s"
proof (cases a)
  case (Arrive c)
  with assms show ?thesis by simp
next
  case (Fail x)
  then show ?thesis using handleError_enter_held [of s e x] by simp
next
  case Closed
  then show ?thesis using handleClose_enter_held [of s e] by simp
next
  case (Resume k)
  then show ?thesis using resume_task_held [of s e "ts ! k"] by (simp add: adds_def)
next
  case CallStart
  have "adds (held (resumeToken s)) s (snd (start e s))"
    by (rule adds_start) simp_all
  with CallStart show ?thesis using start_keeps [of e s] by simp
next
  case CallStop
  then show ?thesis using stop_enter_held [of "resumeToken s" s e] by simp
next
  case (CallRegister h)
  then show ?thesis by (simp add: registerHandler_def adds_def logger_def emit_def)
next
  case (CallUnregister h)
  have "adds (held (resumeToken s)) s (unregisterHandler h s)"
    by (rule adds_unregisterHandler) simp
  with CallUnregister show ?thesis
    using frame_unregisterHandler [of s h] by (simp add: frame_def)
qed

lemma handleChange_enter_trace:
  "trace (fst (handleChange_enter e c s)) =
     trace s @ [Hook (hook_for (c_operationType c)) (to_event c)
                  (resumeToken (fst (handleChange_enter e c s)))] \<and>
   resumeToken (fst (handleChange_enter e c s)) = resumeToken (store_token c s)"
  by (simp add: handleChange_enter_def Let_def getResumeToken_def emit_def to_event_def)

lemma run_schedule_no_arrival:
  assumes "list_all no_arrival acts"
  shows "adds (held (resumeToken s)) s (fst (run_schedule e acts (s, ts))) \<and>
         resumeToken (fst (run_schedule e acts (s, ts))) = resumeToken s"
  using assms
proof (induction acts arbitrary: s ts)
  case Nil
  show ?case by (simp add: adds_def)
next
  case (Cons a acts)
  obtain s1 ts1 where st: "step e a (s, ts) = (s1, ts1)" by (cases "step e a (s, ts)")
  have h: "adds (held (resumeToken s)) s s1 \<and> resumeToken s1 = resumeToken s"
    using step_held [of a s e ts] Cons.prems st by simp
  have "adds (held (resumeToken s1)) s1 (fst (run_schedule e acts (s1, ts1))) \<and>
      resumeToken (fst (run_schedule e acts (s1, ts1))) = resumeToken s1"
    using Cons.IH Cons.prems by simp
  with h st show ?case by (auto intro: adds_trans)
qed

lemma position_after_append:
  "position_after cur (a @ b) = position_after (position_after cur a) b"
  by (induction cur a rule: position_after.induct) simp_all

lemma in_step_append:
  "in_step cur (a @ b) \<longleftrightarrow> in_step cur a \<and> in_step (position_after cur a) b"
  by (induction cur a rule: in_step.induct) simp_all

lemma held_in_step:
  "list_all (held cur) tr \<Longrightarrow> in_step cur tr \<and> position_after cur tr = cur"
proof (induction tr)
  case Nil
  show ?case by simp
next
  case (Cons c tr)
  then show ?case by (cases c) simp_all
qed

lemma step_in_step:
  "\<exists>tr. trace (fst (step e a (s, ts))) = trace s @ tr \<and> in_step (resumeToken s) tr \<and>
     position_after (resumeToken s) tr = resumeToken (fst (step e a (s, ts)))"
proof (cases "no_arrival a")
  case True
  then have "adds (held (resumeToken s)) s (fst (step e a (s, ts))) \<and>
      resumeToken (fst (step e a (s, ts))) = resumeToken s"
    by (rule step_held)
  then show ?thesis
    using held_in_step by (fastforce simp: adds_def)
next
  case False
  then obtain c where a: "a = Arrive c" by (cases a) simp_all
  show ?thesis
    using handleChange_enter_trace [of e c s] a by simp
qed

lemma run_schedule_in_step:
  "\<exists>tr. trace (fst (run_schedule e acts (s, ts))) = trace s @ tr \<and> in_step (resumeToken s) tr \<and>
     position_after (resumeToken s) tr = resumeToken (fst (run_schedule e acts (s, ts)))"
proof (induction acts arbitrary: s ts)
  case Nil
  show ?case by simp
next
  case (Cons a acts)
  obtain s1 ts1 where st: "step e a (s, ts) = (s1, ts1)" by (cases "step e a (s, ts)")
  obtain tr1 where tr1: "trace s1 = trace s @ tr1" "in_step (resumeToken s) tr1"
      "position_after (resumeToken s) tr1 = resumeToken s1"
    using step_in_step [of e a s ts] st by auto
  obtain tr where tr: "trace (fst (run_schedule e acts (s1, ts1))) = trace s1 @ tr"
      "in_step (resumeToken s1) tr"
      "position_after (resumeToken s1) tr = resumeToken (fst (run_schedule e acts (s1, ts1)))"
    using Cons.IH by blast
  have "trace (fst (run_schedule e (a # acts) (s, ts))) = trace s @ (tr1 @ tr)"
    using st tr1(1) tr(1) by simp
  moreover have "in_step (resumeToken s) (tr1 @ tr)"
    using tr1(2,3) tr(2) by (simp add: in_step_append)
  moreover have "position_after (resumeToken s) (tr1 @ tr) =
      resumeToken (fst (run_schedule e (a # acts) (s, ts)))"
    using tr1(3) tr(3) st by (simp add: position_after_append)
  ultimately show ?case by blast
qed

text \<open>
  A signal with nothing in between: its task is resumed until it ends, and the outcome
  is that of the method run in one go.
\<close>

lemma run_schedule_append:
  "run_schedule e (xs @ ys) st = run_schedule e ys (run_schedule e xs st)"
  by (induction xs arbitrary: st) simp_all

lemma run_schedule_idle: "run_schedule e (replicate m (Resume 0)) (s, []) = (s, [])"
  by (induction m) simp_all

lemma continue_single: "continue 0 [t] p = spawn [] p"
  by (cases p, cases "snd p") auto

lemma run_schedule_Resume:
  "run_schedule e (Resume 0 # acts) (s, [t]) = run_schedule e acts (spawn [] (resume_task e t s))"
  by (simp add: continue_single)

lemma resume_task_AwaitHandler:
  "resume_task e (AwaitHandler sg i r) s = loop_from e sg i (logged sg r s)"
  by (cases r) (simp_all add: logged_def)

lemma invoke_as_step:
  assumes "member_of e sg h s = Some (c, cb)"
  shows "invoke e sg h s = logged sg (fst (run_callback cb (emit c s))) (snd (run_callback cb (emit c s)))"
  using assms by (simp add: invoke_def logged_def split: prod.splits option.splits)

lemma loop_from_run:
  "\<exists>m. run_schedule e (replicate m (Resume 0)) (spawn [] (loop_from e sg i s)) =
         spawn [] (after_handlers sg (for_handlers e sg i s))"
proof (induction e sg i s rule: for_handlers.induct)
  case (1 e sg i s)
  show ?case
  proof (cases "i < length (handlers s)")
    case False
    then have "loop_from e sg i s = after_handlers sg s"
      by (simp add: loop_from_def next_handler.simps [of e sg i s])
    moreover have "for_handlers e sg i s = s"
      using False by (simp add: for_handlers.simps [of e sg i s])
    ultimately have "run_schedule e (replicate 0 (Resume 0)) (spawn [] (loop_from e sg i s)) =
         spawn [] (after_handlers sg (for_handlers e sg i s))"
      by simp
    then show ?thesis by blast
  next
    case True
    let ?h = "handlers s ! i"
    have f: "for_handlers e sg i s = for_handlers e sg (Suc i) (invoke e sg ?h s)"
      using True by (simp add: for_handlers.simps [of e sg i s])
    obtain m where m: "run_schedule e (replicate m (Resume 0))
          (spawn [] (loop_from e sg (Suc i) (invoke e sg ?h s))) =
        spawn [] (after_handlers sg (for_handlers e sg (Suc i) (invoke e sg ?h s)))"
      using "1.IH" True by blast
    show ?thesis
    proof (cases "member_of e sg ?h s")
      case None
      then have "invoke e sg ?h s = s"
        by (simp add: invoke_def)
      moreover have "loop_from e sg i s = loop_from e sg (Suc i) s"
        using True None by (simp add: loop_from_def next_handler.simps [of e sg i s])
      ultimately show ?thesis
        using m f by auto
    next
      case (Some p)
      obtain c cb where p: "p = (c, cb)" by (cases p)
      let ?rc = "run_callback cb (emit c s)"
      have l: "loop_from e sg i s = (snd ?rc, Some (AwaitHandler sg (Suc i) (fst ?rc)))"
        using True Some p by (simp add: loop_from_def next_handler.simps [of e sg i s] Let_def)
      have v: "invoke e sg ?h s = logged sg (fst ?rc) (snd ?rc)"
        using Some p by (simp add: invoke_as_step)
      have "run_schedule e (replicate (Suc m) (Resume 0)) (spawn [] (loop_from e sg i s)) =
          run_schedule e (replicate m (Resume 0))
            (spawn [] (loop_from e sg (Suc i) (logged sg (fst ?rc) (snd ?rc))))"
        by (simp add: l continue_single resume_task_AwaitHandler del: resume_task.simps)
      then show ?thesis
        using m f v by metis
    qed
  qed
qed

lemma reconnect_run:
  assumes "reconnect_resume e n s = Some s'"
  shows "\<exists>m. run_schedule e (replicate m (Resume 0)) (s, [AwaitTimer]) = (s', [])"
  using assms
proof (induction n arbitrary: s)
  case 0
  then show ?case by simp
next
  case (Suc n)
  let ?r = "start e (carry_token s)"
  have r1: "run_schedule e (Resume 0 # acts) (s, [AwaitTimer]) =
      run_schedule e acts (snd ?r, [AwaitStart (fst ?r)])" for acts
    by (simp add: Let_def)
  show ?case
  proof (cases "fst ?r")
    case None
    then have "s' = logger LogLevel ''Reconnected successfully'' (snd ?r)"
      using Suc.prems by (simp add: Let_def split: prod.splits)
    then have "run_schedule e (replicate 2 (Resume 0)) (s, [AwaitTimer]) = (s', [])"
      using None by (simp add: numeral_2_eq_2 Let_def)
    then show ?thesis by blast
  next
    case (Some x)
    let ?s3 = "logger ErrorLevel ''Reconnection failed'' (snd ?r)"
    show ?thesis
    proof (cases "shouldReconnect ?s3")
      case True
      then have "reconnect_resume e n (reconnect_wait ?s3) = Some s'"
        using Suc.prems Some by (simp add: Let_def split: prod.splits)
      then obtain m where "run_schedule e (replicate m (Resume 0)) (reconnect_wait ?s3, [AwaitTimer]) = (s', [])"
        using Suc.IH by blast
      then have "run_schedule e (replicate (Suc (Suc m)) (Resume 0)) (s, [AwaitTimer]) = (s', [])"
        using Some True by (simp add: Let_def)
      then show ?thesis by blast
    next
      case False
      then have "s' = logger ErrorLevel ''Maximum reconnection attempts reached'' ?s3"
        using Suc.prems Some by (simp add: Let_def split: prod.splits)
      then have "run_schedule e (replicate 2 (Resume 0)) (s, [AwaitTimer]) = (s', [])"
        using Some False by (simp add: numeral_2_eq_2 Let_def)
      then show ?thesis by blast
    qed
  qed
qed

lemma after_handlers_run:
  assumes "sg = ErrorSignal x \<or> sg = CloseSignal"
    and "(if autoReconnect (cdcOptions s) = Some True \<and> shouldReconnect s
          then reconnect e n s else Some s) = Some s'"
  shows "\<exists>m. run_schedule e (replicate m (Resume 0)) (spawn [] (after_handlers sg s)) = (s', [])"
proof (cases "autoReconnect (cdcOptions s) = Some True \<and> shouldReconnect s")
  case True
  then have "reconnect_resume e n (reconnect_wait s) = Some s'"
    using assms(2) by (simp add: reconnect_def)
  then obtain m where "run_schedule e (replicate m (Resume 0)) (reconnect_wait s, [AwaitTimer]) = (s', [])"
    using reconnect_run by blast
  moreover have "after_handlers sg s = (reconnect_wait s, Some AwaitTimer)"
    using True assms(1) by (auto simp: after_handlers_def)
  ultimately show ?thesis by auto
next
  case False
  then have "s' = s" using assms(2) by auto
  moreover have "after_handlers sg s = (s, None)"
    using False assms(1) by (auto simp: after_handlers_def)
  ultimately have "run_schedule e (replicate 0 (Resume 0)) (spawn [] (after_handlers sg s)) = (s', [])"
    by simp
  then show ?thesis by blast
qed

lemma handleError_run:
  assumes "handleError e n x s = Some s'"
  shows "\<exists>m. run_schedule e (replicate m (Resume 0)) (spawn [] (handleError_enter e x s)) = (s', [])"
proof -
  let ?s1 = "logger ErrorLevel ''CDC service error'' s"
  let ?s2 = "for_handlers e (ErrorSignal x) 0 ?s1"
  obtain m1 where m1: "run_schedule e (replicate m1 (Resume 0)) (spawn [] (handleError_enter e x s)) =
      spawn [] (after_handlers (ErrorSignal x) ?s2)"
    unfolding handleError_enter_def using loop_from_run by blast
  have "(if autoReconnect (cdcOptions ?s2) = Some True \<and> shouldReconnect ?s2
          then reconnect e n ?s2 else Some ?s2) = Some s'"
    using assms by (simp add: handleError_def Let_def)
  then obtain m2 where m2: "run_schedule e (replicate m2 (Resume 0))
      (spawn [] (after_handlers (ErrorSignal x) ?s2)) = (s', [])"
    using after_handlers_run [of "ErrorSignal x" x ?s2 e n s'] by auto
  have "run_schedule e (replicate (m1 + m2) (Resume 0)) (spawn [] (handleError_enter e x s)) = (s', [])"
    using m1 m2 by (simp add: replicate_add run_schedule_append)
  then show ?thesis by blast
qed

lemma handleClose_run:
  assumes "handleClose e n s = Some s'"
  shows "\<exists>m. run_schedule e (Closed # replicate m (Resume 0)) (s, []) = (s', [])"
proof -
  let ?s1 = "(logger LogLevel ''Change stream closed'' s)\<lparr>watching := False\<rparr>"
  let ?s2 = "for_handlers e CloseSignal 0 ?s1"
  obtain m1 where m1: "run_schedule e (replicate m1 (Resume 0)) (spawn [] (handleClose_enter e s)) =
      spawn [] (after_handlers CloseSignal ?s2)"
    unfolding handleClose_enter_def using loop_from_run by blast
  have "(if autoReconnect (cdcOptions ?s2) = Some True \<and> shouldReconnect ?s2
          then reconnect e n ?s2 else Some ?s2) = Some s'"
    using assms by (simp add: handleClose_def Let_def)
  then obtain m2 where m2: "run_schedule e (replicate m2 (Resume 0))
      (spawn [] (after_handlers CloseSignal ?s2)) = (s', [])"
    using after_handlers_run [of CloseSignal _ ?s2 e n s'] by auto
  have "run_schedule e (Closed # replicate (m1 + m2) (Resume 0)) (s, []) = (s', [])"
    using m1 m2 by (simp add: replicate_add run_schedule_append)
  then show ?thesis by blast
qed

lemma handleChange_run:
  assumes "handleChange e n c s = Some s'"
  shows "\<exists>m. run_schedule e (Arrive c # replicate m (Resume 0)) (s, []) = (s', [])"
proof -
  let ?ev = "to_event c"
  let ?k = "hook_for (c_operationType c)"
  let ?s1 = "emit (Hook ?k ?ev (resumeToken (store_token c s))) (store_token c s)"
  have en: "handleChange_enter e c s = (?s1, Some (AwaitHook ?ev (hook e ?k ?ev)))"
    by (simp add: handleChange_enter_def Let_def to_event_def getResumeToken_def)
  show ?thesis
  proof (cases "hook e ?k ?ev")
    case None
    then have s': "s' = for_handlers e (EventSignal ?ev) 0 ?s1"
      using assms handleChange_ok [OF None, of n s] by (simp add: notifyHandlers_def)
    obtain m where "run_schedule e (replicate m (Resume 0)) (spawn [] (loop_from e (EventSignal ?ev) 0 ?s1)) =
        spawn [] (after_handlers (EventSignal ?ev) (for_handlers e (EventSignal ?ev) 0 ?s1))"
      using loop_from_run by blast
    then have "run_schedule e (Arrive c # replicate (Suc m) (Resume 0)) (s, []) = (s', [])"
      using en None s' by (simp add: continue_single after_handlers_def)
    then show ?thesis by blast
  next
    case (Some x)
    let ?s2 = "logger ErrorLevel ''Error handling change event'' ?s1"
    have "handleError e n x ?s2 = Some s'"
      using assms handleChange_failed [OF Some, of n s] by (simp add: getResumeToken_def)
    then obtain m where "run_schedule e (replicate m (Resume 0)) (spawn [] (handleError_enter e x ?s2)) = (s', [])"
      using handleError_run by blast
    then have "run_schedule e (Arrive c # replicate (Suc m) (Resume 0)) (s, []) = (s', [])"
      using en Some by (simp add: continue_single)
    then show ?thesis by blast
  qed
qed

lemma stop_run: "run_schedule e [CallStop, Resume 0] (s, []) = (snd (stop e s), [])"
  by (simp add: stop_enter_def stop_def Let_def split: option.splits)

section \<open>The claims\<close>

subsection \<open>C1\<close>

text \<open>
  C1, the claim as stated fails: with handlers 1 and 2 registered, an insert notification
  with token \<^verbatim>\<open>token123\<close> arrives, its hook returns and \<^verbatim>\<open>onEvent\<close> of handler 1
  is called; while that call is awaited an update notification with token
  \<^verbatim>\<open>token456\<close> arrives. Handler 2 is then called for the insert notification with
  \<^verbatim>\<open>token456\<close> stored, not the token of its own event.
\<close>

theorem overlapping_notifications_counterexample:
  "c_id insert_change = Some ''token123'' \<and>
   to_event insert_change = insert_event \<and>
   handlers (register_all [1, 2] (new_engine no_options)) = [1, 2] \<and>
   schedule_calls quiet
     [Arrive insert_change, Resume 0, Arrive update_change, Resume 0, Resume 0, Resume 0, Resume 0, Resume 0]
     (register_all [1, 2] (new_engine no_options)) =
     [Hook HandleInsert insert_event (Some ''token123''),
      OnEvent 1 insert_event (Some ''token123''),
      Hook HandleUpdate update_event (Some ''token456''),
      OnEvent 2 insert_event (Some ''token456''),
      OnEvent 1 update_event (Some ''token456''),
      OnEvent 2 update_event (Some ''token456'')] \<and>
   snd (run_schedule quiet
     [Arrive insert_change, Resume 0, Arrive update_change, Resume 0, Resume 0, Resume 0, Resume 0, Resume 0]
     (register_all [1, 2] (new_engine no_options), [])) = []"
  by code_simp

text \<open>
  C1, as amended. A notification that arrives has its token stored before anything else
  is called, and the first call is its hook, entered with that position stored (the
  assignment is guarded by \<^verbatim>\<open>if (change._id)\<close>: a notification without a token
  leaves the position stored before). As long as no further notification arrives,
  whatever else happens, \<^verbatim>\<open>getResumeToken()\<close> returns this position and the hook and
  every \<^verbatim>\<open>onEvent\<close> called, for this notification or for an earlier one still being
  dispatched, find it stored. In every run, overlapping or not, each \<^verbatim>\<open>onEvent\<close>
  finds the position of the latest notification that has arrived, and
  \<^verbatim>\<open>getResumeToken()\<close> returns it at the end. A notification processed to its end
  with nothing in between is \<open>handleChange\<close>: what it returns is reached by the
  arrival followed by the steps of its task, and it returns whenever the hook returns
  normally, or the number of reconnect attempts is bounded and the bound on the calls of
  \<^verbatim>\<open>start\<close> is large enough.
\<close>

theorem resume_token_stored_on_receipt:
  "getResumeToken (fst (handleChange_enter e c s)) =
     (case c_id c of Some t \<Rightarrow> Some t | None \<Rightarrow> getResumeToken s) \<and>
   calls_since s (fst (handleChange_enter e c s)) =
     [Hook (hook_for (c_operationType c)) (to_event c)
        (getResumeToken (fst (handleChange_enter e c s)))] \<and>
   (list_all no_arrival acts \<longrightarrow>
      getResumeToken (fst (run_schedule e (Arrive c # acts) (s, ts))) =
        getResumeToken (fst (handleChange_enter e c s)) \<and>
      list_all (sees (getResumeToken (fst (handleChange_enter e c s))))
        (calls_since s (fst (run_schedule e (Arrive c # acts) (s, ts))))) \<and>
   in_step (getResumeToken s) (calls_since s (fst (run_schedule e acts (s, ts)))) \<and>
   position_after (getResumeToken s) (calls_since s (fst (run_schedule e acts (s, ts)))) =
     getResumeToken (fst (run_schedule e acts (s, ts))) \<and>
   (handleChange e n c s = Some s' \<longrightarrow>
      (\<exists>m. run_schedule e (Arrive c # replicate m (Resume 0)) (s, []) = (s', []))) \<and>
   ((hook e (hook_for (c_operationType c)) (to_event c) = None \<or>
      (num_or (maxReconnectAttempts (cdcOptions s)) 0 \<noteq> 0 \<and>
       nat (num_or (maxReconnectAttempts (cdcOptions s)) 0) - reconnectAttempts s < n))
     \<longrightarrow> handleChange e n c s \<noteq> None)"
proof (intro conjI impI)
  let ?s1 = "fst (handleChange_enter e c s)"
  note en = handleChange_enter_trace [of e c s]
  show "getResumeToken ?s1 = (case c_id c of Some t \<Rightarrow> Some t | None \<Rightarrow> getResumeToken s)"
    using en by (simp add: getResumeToken_def store_token_resumeToken split: option.splits)
  show "calls_since s ?s1 =
      [Hook (hook_for (c_operationType c)) (to_event c) (getResumeToken ?s1)]"
    using en by (simp add: getResumeToken_def calls_since_append)
  {
    assume a: "list_all no_arrival acts"
    let ?s' = "fst (run_schedule e (Arrive c # acts) (s, ts))"
    obtain ts1 where st: "step e (Arrive c) (s, ts) = (?s1, ts1)"
      by (cases "step e (Arrive c) (s, ts)") (simp add: handleChange_enter_def Let_def)
    have "adds (held (resumeToken ?s1)) ?s1 (fst (run_schedule e acts (?s1, ts1))) \<and>
        resumeToken (fst (run_schedule e acts (?s1, ts1))) = resumeToken ?s1"
      using a by (rule run_schedule_no_arrival)
    then have h: "adds (held (resumeToken ?s1)) ?s1 ?s' \<and> resumeToken ?s' = resumeToken ?s1"
      using st by simp
    then obtain tr where tr: "trace ?s' = trace ?s1 @ tr" "list_all (held (resumeToken ?s1)) tr"
      by (auto simp: adds_def)
    have "list_all (sees (resumeToken ?s1)) tr"
      using tr(2) held_sees by (auto simp: list_all_iff)
    moreover have "calls_since s ?s' =
        Hook (hook_for (c_operationType c)) (to_event c) (resumeToken ?s1) # tr"
      using en tr(1) by (simp add: calls_since_append)
    ultimately show "list_all (sees (getResumeToken ?s1)) (calls_since s ?s')"
      by (simp add: getResumeToken_def)
    show "getResumeToken ?s' = getResumeToken ?s1"
      using h by (simp add: getResumeToken_def)
  }
  obtain tr where tr: "trace (fst (run_schedule e acts (s, ts))) = trace s @ tr"
      "in_step (resumeToken s) tr"
      "position_after (resumeToken s) tr = resumeToken (fst (run_schedule e acts (s, ts)))"
    using run_schedule_in_step by blast
  from tr(1) have cs: "calls_since s (fst (run_schedule e acts (s, ts))) = tr"
    by (rule calls_since_append)
  show "in_step (getResumeToken s) (calls_since s (fst (run_schedule e acts (s, ts))))"
    using tr(2) cs by (simp add: getResumeToken_def)
  show "position_after (getResumeToken s) (calls_since s (fst (run_schedule e acts (s, ts)))) =
      getResumeToken (fst (run_schedule e acts (s, ts)))"
    using tr(3) cs by (simp add: getResumeToken_def)
  {
    assume "handleChange e n c s = Some s'"
    then show "\<exists>m. run_schedule e (Arrive c # replicate m (Resume 0)) (s, []) = (s', [])"
      by (rule handleChange_run)
  }
  {
    assume "hook e (hook_for (c_operationType c)) (to_event c) = None \<or>
      (num_or (maxReconnectAttempts (cdcOptions s)) 0 \<noteq> 0 \<and>
       nat (num_or (maxReconnectAttempts (cdcOptions s)) 0) - reconnectAttempts s < n)"
    then show "handleChange e n c s \<noteq> None" by (rule handleChange_returns)
  }
qed

theorem resume_token_stored_on_receipt_witness:
  "list_all no_arrival [Resume 0, CallUnregister 2, Resume 0, Resume 0] \<and>
   c_id insert_change = Some ''token123'' \<and>
   hook quiet (hook_for (c_operationType insert_change)) (to_event insert_change) = None \<and>
   getResumeToken (fst (run_schedule quiet
     [Arrive insert_change, Resume 0, CallUnregister 2, Resume 0, Resume 0]
     (register_all [1, 2] (new_engine no_options), []))) = Some ''token123'' \<and>
   list_all (sees (Some ''token123''))
     (calls_since (register_all [1, 2] (new_engine no_options))
        (fst (run_schedule quiet [Arrive insert_change, Resume 0, CallUnregister 2, Resume 0, Resume 0]
           (register_all [1, 2] (new_engine no_options), [])))) \<and>
   (\<exists>s'. handleChange quiet 0 insert_change (register_all [1, 2] (new_engine no_options)) = Some s' \<and>
      (\<exists>m. run_schedule quiet (Arrive insert_change # replicate m (Resume 0))
             (register_all [1, 2] (new_engine no_options), []) = (s', [])) \<and>
      calls_since (register_all [1, 2] (new_engine no_options)) s' =
        [Hook HandleInsert insert_event (Some ''token123''),
         OnEvent 1 insert_event (Some ''token123''),
         OnEvent 2 insert_event (Some ''token123'')])"
proof -
  let ?s = "register_all [1, 2] (new_engine no_options)"
  let ?a = "[Resume 0, CallUnregister 2, Resume 0, Resume 0]"
  have r: "list_all no_arrival ?a" by code_simp
  have i: "c_id insert_change = Some ''token123''" by code_simp
  have h: "hook quiet (hook_for (c_operationType insert_change)) (to_event insert_change) = None"
    by code_simp
  have v: "map_option (calls_since ?s) (handleChange quiet 0 insert_change ?s) =
      Some [Hook HandleInsert insert_event (Some ''token123''),
         OnEvent 1 insert_event (Some ''token123''),
         OnEvent 2 insert_event (Some ''token123'')]"
    by code_simp
  note th = resume_token_stored_on_receipt [where e = quiet and c = insert_change and s = ?s
      and acts = ?a and ts = "[]" and n = 0]
  have e1: "getResumeToken (fst (handleChange_enter quiet insert_change ?s)) =
      (case c_id insert_change of Some t \<Rightarrow> Some t | None \<Rightarrow> getResumeToken ?s)"
    using th by blast
  then have e2: "getResumeToken (fst (handleChange_enter quiet insert_change ?s)) = Some ''token123''"
    by (simp only: i option.case)
  have k1: "getResumeToken (fst (run_schedule quiet (Arrive insert_change # ?a) (?s, []))) =
      getResumeToken (fst (handleChange_enter quiet insert_change ?s))"
    and k2: "list_all (sees (getResumeToken (fst (handleChange_enter quiet insert_change ?s))))
      (calls_since ?s (fst (run_schedule quiet (Arrive insert_change # ?a) (?s, []))))"
    using th r by blast+
  from k1 e2 have t1: "getResumeToken (fst (run_schedule quiet (Arrive insert_change # ?a) (?s, []))) =
      Some ''token123''"
    by (rule trans)
  from k2 have l1: "list_all (sees (Some ''token123''))
      (calls_since ?s (fst (run_schedule quiet (Arrive insert_change # ?a) (?s, []))))"
    by (simp only: e2)
  from th h obtain s' where s': "handleChange quiet 0 insert_change ?s = Some s'"
    by blast
  have m: "\<exists>m. run_schedule quiet (Arrive insert_change # replicate m (Resume 0)) (?s, []) = (s', [])"
    using resume_token_stored_on_receipt [where e = quiet and c = insert_change and s = ?s
      and n = 0 and s' = s'] s' by blast
  have c: "calls_since ?s s' =
        [Hook HandleInsert insert_event (Some ''token123''),
         OnEvent 1 insert_event (Some ''token123''),
         OnEvent 2 insert_event (Some ''token123'')]"
    using v s' by simp
  from r i h t1 l1 s' m c show ?thesis by blast
qed

subsection \<open>C2\<close>

text \<open>
  C2. Once a resume position is recorded, every call of \<^verbatim>\<open>model.watch\<close> that a
  reconnect makes, whether \<^verbatim>\<open>reconnect\<close> is entered directly, after a close signal
  or after an error signal, and also on its repeated attempts, carries that position as
  \<^verbatim>\<open>resumeAfter\<close>; the position is read when the timer fires, so the same holds
  from the state the engine is in then. When the engine is not watching,
  \<^verbatim>\<open>reconnect\<close> does make such a call. It returns whenever the number of attempts
  is bounded and the bound on the calls of \<^verbatim>\<open>start\<close> is large enough.
\<close>

theorem reconnect_resumes_after_token:
  assumes "getResumeToken s = Some t"
  shows "(\<forall>s'. reconnect e n s = Some s' \<longrightarrow>
            (\<forall>p r. Watch p r \<in> set (calls_since s s') \<longrightarrow> cs_resumeAfter r = Some t) \<and>
            (\<not> watching s \<longrightarrow> (\<exists>p r. Watch p r \<in> set (calls_since s s')))) \<and>
         (\<forall>s'. reconnect_resume e n s = Some s' \<longrightarrow>
            (\<forall>p r. Watch p r \<in> set (calls_since s s') \<longrightarrow> cs_resumeAfter r = Some t)) \<and>
         (\<forall>s'. handleClose e n s = Some s' \<longrightarrow>
            (\<forall>p r. Watch p r \<in> set (calls_since s s') \<longrightarrow> cs_resumeAfter r = Some t)) \<and>
         (\<forall>x s'. handleError e n x s = Some s' \<longrightarrow>
            (\<forall>p r. Watch p r \<in> set (calls_since s s') \<longrightarrow> cs_resumeAfter r = Some t)) \<and>
         (num_or (maxReconnectAttempts (cdcOptions s)) 0 \<noteq> 0 \<and>
          nat (num_or (maxReconnectAttempts (cdcOptions s)) 0) - reconnectAttempts s < n \<longrightarrow>
            reconnect e n s \<noteq> None \<and> handleClose e n s \<noteq> None)"
proof -
  let ?P = "\<lambda>c. \<forall>p r. c = Watch p r \<longrightarrow> cs_resumeAfter r = Some t"
  have tok: "resumeToken s = Some t"
    using assms by (simp add: getResumeToken_def)
  have w: "?P (watch_call (cdcOptions (carry_token s)))"
    using stream_request_resumeAfter [OF cdcOptions_carry_token [OF tok]]
    by (simp add: watch_call_def)
  have a: "\<forall>p r. Watch p r \<in> set (calls_since s s') \<longrightarrow> cs_resumeAfter r = Some t"
    if "reconnect e n s = Some s'" for s'
    using adds_set [of ?P s s'] reconnect_adds [OF that, of ?P] w by auto
  have a': "\<exists>p r. Watch p r \<in> set (calls_since s s')"
    if "reconnect e n s = Some s'" "\<not> watching s" for s'
    using reconnect_reopens [OF that] by (auto simp: watch_call_def)
  have a'': "\<forall>p r. Watch p r \<in> set (calls_since s s') \<longrightarrow> cs_resumeAfter r = Some t"
    if "reconnect_resume e n s = Some s'" for s'
    using adds_set [of ?P s s'] reconnect_resume_adds [OF that, of ?P] w by auto
  have b: "\<forall>p r. Watch p r \<in> set (calls_since s s') \<longrightarrow> cs_resumeAfter r = Some t"
    if "handleClose e n s = Some s'" for s'
    using adds_set [of ?P s s'] handleClose_adds [OF that, of ?P] w by auto
  have c: "\<forall>p r. Watch p r \<in> set (calls_since s s') \<longrightarrow> cs_resumeAfter r = Some t"
    if "handleError e n x s = Some s'" for x s'
    using adds_set [of ?P s s'] handleError_adds [OF that, of ?P] w by auto
  have d: "reconnect e n s \<noteq> None \<and> handleClose e n s \<noteq> None"
    if "num_or (maxReconnectAttempts (cdcOptions s)) 0 \<noteq> 0 \<and>
          nat (num_or (maxReconnectAttempts (cdcOptions s)) 0) - reconnectAttempts s < n"
    using that reconnect_returns [of s n e] handleClose_returns [of s n e] by simp
  from a a' a'' b c d show ?thesis by blast
qed

theorem reconnect_resumes_after_token_witness:
  "getResumeToken watching_engine = Some ''token123'' \<and>
   map_option (\<lambda>s'. watch_calls (calls_since watching_engine s')) (handleClose quiet 1 watching_engine) =
     Some [Watch [] \<lparr>cs_fullDocument = Some UpdateLookup, cs_resumeAfter = Some ''token123'',
             cs_startAtOperationTime = None, cs_batchSize = None, cs_maxAwaitTimeMS = None\<rparr>]"
proof -
  have g: "getResumeToken watching_engine = Some ''token123''"
    by code_simp
  have v: "map_option (\<lambda>s'. watch_calls (calls_since watching_engine s')) (handleClose quiet 1 watching_engine) =
     Some [Watch [] \<lparr>cs_fullDocument = Some UpdateLookup, cs_resumeAfter = Some ''token123'',
             cs_startAtOperationTime = None, cs_batchSize = None, cs_maxAwaitTimeMS = None\<rparr>]"
    by code_simp
  show ?thesis
    using reconnect_resumes_after_token [OF g, of quiet 1] g v by blast
qed

subsection \<open>C3\<close>




subsection \<open>C4\<close>

text \<open>
  C4, what the code does. \<^verbatim>\<open>reconnect\<close> keeps no handle of its timer and no flag
  that \<^verbatim>\<open>stop()\<close> could set. In whatever state the engine waits for the timer, a
  \<^verbatim>\<open>stop()\<close> that returns normally leaves it not watching, and when the timer fires
  \<^verbatim>\<open>reconnect\<close> goes on from that state and calls \<^verbatim>\<open>model.watch\<close>. After a
  close signal in particular the engine is already not watching while it waits, so
  \<^verbatim>\<open>stop()\<close> returns at its first guard: it logs a warning and changes no field.
\<close>

theorem stop_during_wait_reopens:
  "(fst (stop e w) = None \<longrightarrow>
      \<not> watching (snd (stop e w)) \<and>
      (\<forall>s'. reconnect_resume e n (snd (stop e w)) = Some s' \<longrightarrow>
         (\<exists>p r. Watch p r \<in> set (calls_since (snd (stop e w)) s')))) \<and>
   \<not> watching (handleClose_until_wait e s) \<and>
   stop e (handleClose_until_wait e s) =
     (None, logger WarnLevel ''CDC service is not watching'' (handleClose_until_wait e s))"
proof (intro conjI allI impI)
  assume ok: "fst (stop e w) = None"
  then show nw: "\<not> watching (snd (stop e w))"
    by (rule stop_ok_not_watching)
  fix s'
  assume r: "reconnect_resume e n (snd (stop e w)) = Some s'"
  have "watch_call (cdcOptions (carry_token (snd (stop e w)))) \<in> set (calls_since (snd (stop e w)) s')"
    using r nw by (rule reconnect_resume_reopens)
  then show "\<exists>p r. Watch p r \<in> set (calls_since (snd (stop e w)) s')"
    by (auto simp: watch_call_def)
next
  show "\<not> watching (handleClose_until_wait e s)"
    by (rule watching_handleClose_until_wait)
  then show "stop e (handleClose_until_wait e s) =
      (None, logger WarnLevel ''CDC service is not watching'' (handleClose_until_wait e s))"
    by (simp add: stop_def)
qed

theorem stop_during_wait_reopens_witness:
  "handleClose quiet 1 watching_engine =
     reconnect_resume quiet 1 (handleClose_until_wait quiet watching_engine) \<and>
   fst (stop quiet (handleClose_until_wait quiet watching_engine)) = None \<and>
   close_calls (trace (snd (stop quiet (handleClose_until_wait quiet watching_engine)))) = [] \<and>
   map_option (\<lambda>s'. (isWatching s',
        calls_since (snd (stop quiet (handleClose_until_wait quiet watching_engine))) s'))
     (reconnect_resume quiet 1 (snd (stop quiet (handleClose_until_wait quiet watching_engine)))) =
     Some (True,
       [Watch [] \<lparr>cs_fullDocument = Some UpdateLookup, cs_resumeAfter = Some ''token123'',
           cs_startAtOperationTime = None, cs_batchSize = None, cs_maxAwaitTimeMS = None\<rparr>,
        Logger LogLevel ''CDC service started successfully'',
        Logger LogLevel ''Reconnected successfully'']) \<and>
   handleError quiet 1 ''Connection lost'' watching_engine =
     reconnect_resume quiet 1 (handleError_until_wait quiet ''Connection lost'' watching_engine) \<and>
   fst (stop quiet (handleError_until_wait quiet ''Connection lost'' watching_engine)) = None \<and>
   close_calls (trace (snd (stop quiet (handleError_until_wait quiet ''Connection lost'' watching_engine)))) =
     [Close 0] \<and>
   map_option (\<lambda>s'. (isWatching s',
        calls_since (snd (stop quiet (handleError_until_wait quiet ''Connection lost'' watching_engine))) s'))
     (reconnect_resume quiet 1
        (snd (stop quiet (handleError_until_wait quiet ''Connection lost'' watching_engine)))) =
     Some (True,
       [Watch [] \<lparr>cs_fullDocument = Some UpdateLookup, cs_resumeAfter = Some ''token123'',
           cs_startAtOperationTime = None, cs_batchSize = None, cs_maxAwaitTimeMS = None\<rparr>,
        Logger LogLevel ''CDC service started successfully'',
        Logger LogLevel ''Reconnected successfully''])"
proof -
  have v: ?thesis by code_simp
  show ?thesis
    using stop_during_wait_reopens [of quiet "handleClose_until_wait quiet watching_engine" 1 watching_engine] v
    by blast
qed

subsection \<open>C5\<close>

text \<open>
  C5, what the code does. With \<^verbatim>\<open>autoReconnect\<close> off, an error signal makes no call of
  \<^verbatim>\<open>model.watch\<close>, and it leaves \<^verbatim>\<open>watching\<close> as it was: \<^verbatim>\<open>handleError\<close>
  never clears the flag (\<^verbatim>\<open>handleClose\<close> does), so an engine that was watching still
  answers \<^verbatim>\<open>true\<close> to \<^verbatim>\<open>isWatching()\<close>.
\<close>

theorem error_without_autoReconnect:
  assumes "autoReconnect (cdcOptions s) \<noteq> Some True"
  shows "\<exists>s'. handleError e n x s = Some s' \<and> watch_calls (calls_since s s') = [] \<and>
           isWatching s' = isWatching s"
proof -
  let ?P = "\<lambda>c. \<not> is_watch c"
  let ?s1 = "logger ErrorLevel ''CDC service error'' s"
  let ?s2 = "for_handlers e (ErrorSignal x) 0 ?s1"
  have f: "frame ?s1 ?s2" by (rule frame_for_handlers)
  then have k: "cdcOptions ?s2 = cdcOptions s \<and> watching ?s2 = watching s"
    by (simp add: frame_def logger_def emit_def)
  then have r: "handleError e n x s = Some ?s2"
    using assms by (simp add: handleError_def Let_def)
  have "adds ?P ?s1 ?s2"
    by (rule adds_for_handlers) (auto simp: member_of_def)
  then have "adds ?P s ?s2"
    using adds_trans [OF adds_logger [of ?P]] by simp
  then have "list_all ?P (calls_since s ?s2)"
    using adds_calls_since by blast
  then have "watch_calls (calls_since s ?s2) = []"
    by (simp add: watch_calls_def list_all_iff)
  with r k show ?thesis by (simp add: isWatching_def)
qed

theorem error_without_autoReconnect_witness:
  "autoReconnect (cdcOptions no_auto_engine) = Some False \<and>
   isWatching no_auto_engine \<and>
   map_option (\<lambda>s'. (isWatching s', watch_calls (calls_since no_auto_engine s')))
     (handleError quiet 0 ''Connection lost'' no_auto_engine) = Some (True, [])"
proof -
  have a: "autoReconnect (cdcOptions no_auto_engine) \<noteq> Some True" by code_simp
  have v: ?thesis by code_simp
  show ?thesis
    using error_without_autoReconnect [OF a, of quiet 0 "''Connection lost''"] v by blast
qed

subsection \<open>C6\<close>

text \<open>
  C6, the claim as stated fails: handlers 1, 2 and 3 are registered, the \<^verbatim>\<open>onEvent\<close>
  of handler 1 unregisters handler 1 and then throws. The failure is caught and logged,
  but handler 2, registered after handler 1 and still registered, is not called for the
  notification.
\<close>

theorem onEvent_failure_counterexample:
  "handlers (register_all [1, 2, 3] (new_engine no_options)) = [1, 2, 3] \<and>
   hook leaving_failing_handler (hook_for (c_operationType insert_change)) (to_event insert_change) = None \<and>
   throws (onEvent leaving_failing_handler 1 (to_event insert_change)) = Some ''handler failed'' \<and>
   map_option (calls_since (register_all [1, 2, 3] (new_engine no_options)))
     (handleChange leaving_failing_handler 0 insert_change
        (register_all [1, 2, 3] (new_engine no_options))) =
     Some [Hook HandleInsert insert_event (Some ''token123''),
        OnEvent 1 insert_event (Some ''token123''),
        Logger DebugLevel ''Event handler unregistered'',
        Logger ErrorLevel ''Error in event handler'',
        OnEvent 3 insert_event (Some ''token123'')] \<and>
   map_option handlers
     (handleChange leaving_failing_handler 0 insert_change
        (register_all [1, 2, 3] (new_engine no_options))) = Some [2, 3]"
  by code_simp

text \<open>
  C6, as amended. When the hook returns normally, processing the notification returns, and whatever
  the \<^verbatim>\<open>onEvent\<close> callbacks throw, nothing but the dispatch happens: after the hook
  the only calls are \<^verbatim>\<open>onEvent\<close>, the error log for an \<^verbatim>\<open>onEvent\<close> that
  threw and the debug log of an unregistration (no \<^verbatim>\<open>onError\<close>, no error-path log,
  no timer, no \<^verbatim>\<open>watch\<close>), and the stream, the watching flag, the attempt counter
  and the options are as before. Which handlers the dispatch reaches, and the registry it
  leaves behind, do not depend on which \<^verbatim>\<open>onEvent\<close> throws: they are the same as
  when none throws. In a dispatch whose callbacks leave the registry alone, \<^verbatim>\<open>onEvent\<close>
  is called on every registered handler, in registration order, whichever of them throw:
  the calls made are the hook, then for each handler its \<^verbatim>\<open>onEvent\<close> followed by
  one error log if it threw.
\<close>

theorem onEvent_failure_isolated:
  "(hook e (hook_for (c_operationType c)) (to_event c) = None \<longrightarrow>
      (\<exists>s' tr. handleChange e n c s = Some s' \<and>
         calls_since s s' =
           Hook (hook_for (c_operationType c)) (to_event c) (resumeToken s') # tr \<and>
         list_all dispatch_call tr \<and>
         watching s' = watching s \<and> changeStream s' = changeStream s \<and>
         reconnectAttempts s' = reconnectAttempts s \<and> cdcOptions s' = cdcOptions s)) \<and>
   handlers (notifyHandlers (without_throws e) ev s) = handlers (notifyHandlers e ev s) \<and>
   notified (calls_since s (notifyHandlers (without_throws e) ev s)) =
     notified (calls_since s (notifyHandlers e ev s)) \<and>
   ((\<forall>h \<in> set (handlers s). unregisters (onEvent e h (to_event c)) = []) \<and>
    hook e (hook_for (c_operationType c)) (to_event c) = None \<longrightarrow>
      (\<exists>s'. handleChange e n c s = Some s' \<and>
         calls_since s s' =
           Hook (hook_for (c_operationType c)) (to_event c) (resumeToken s') #
           event_calls e (to_event c) (resumeToken s') (handlers s) \<and>
         notified (calls_since s s') = handlers s \<and> handlers s' = handlers s))"
proof (intro conjI impI)
  assume h: "hook e (hook_for (c_operationType c)) (to_event c) = None"
  let ?ev = "to_event c"
  let ?tok = "resumeToken (store_token c s)"
  let ?s2 = "emit (Hook (hook_for (c_operationType c)) ?ev ?tok) (store_token c s)"
  let ?s' = "for_handlers e (EventSignal ?ev) 0 ?s2"
  have r: "handleChange e n c s = Some ?s'"
    using handleChange_ok [OF h] by (simp add: notifyHandlers_def)
  have "frame ?s2 ?s'" by (rule frame_for_handlers)
  then have f: "resumeToken ?s' = ?tok \<and> watching ?s' = watching s \<and>
      changeStream ?s' = changeStream s \<and>
      reconnectAttempts ?s' = reconnectAttempts s \<and> cdcOptions ?s' = cdcOptions s"
    by (simp add: frame_def emit_def)
  have "adds dispatch_call ?s2 ?s'"
    by (rule adds_for_handlers) (auto simp: member_of_def catch_message_def)
  then obtain tr where tr: "trace ?s' = trace ?s2 @ tr" "list_all dispatch_call tr"
    by (auto simp: adds_def)
  have "trace ?s' = trace s @ (Hook (hook_for (c_operationType c)) ?ev ?tok # tr)"
    using tr(1) by simp
  then have "calls_since s ?s' = Hook (hook_for (c_operationType c)) ?ev ?tok # tr"
    by (rule calls_since_append)
  with r f tr(2) show "\<exists>s' tr. handleChange e n c s = Some s' \<and>
         calls_since s s' =
           Hook (hook_for (c_operationType c)) (to_event c) (resumeToken s') # tr \<and>
         list_all dispatch_call tr \<and>
         watching s' = watching s \<and> changeStream s' = changeStream s \<and>
         reconnectAttempts s' = reconnectAttempts s \<and> cdcOptions s' = cdcOptions s"
    by metis
next
  show "handlers (notifyHandlers (without_throws e) ev s) = handlers (notifyHandlers e ev s)"
    using notifyHandlers_without_throws [of e ev s] by simp
  show "notified (calls_since s (notifyHandlers (without_throws e) ev s)) =
      notified (calls_since s (notifyHandlers e ev s))"
    using notifyHandlers_without_throws [of e ev s] by simp
next
  assume a: "(\<forall>h \<in> set (handlers s). unregisters (onEvent e h (to_event c)) = []) \<and>
    hook e (hook_for (c_operationType c)) (to_event c) = None"
  let ?tok = "resumeToken (store_token c s)"
  let ?tr = "Hook (hook_for (c_operationType c)) (to_event c) ?tok #
      event_calls e (to_event c) ?tok (handlers s)"
  let ?s' = "(store_token c s)\<lparr>trace := trace s @ ?tr\<rparr>"
  have r: "handleChange e n c s = Some ?s'"
    using a handleChange_plain [of s e c n] by blast
  have tok: "resumeToken ?s' = ?tok"
    by simp
  have cs: "calls_since s ?s' = ?tr"
    by (rule calls_since_append) simp
  have n: "notified (calls_since s ?s') = handlers s"
    unfolding cs by (simp add: notified_Cons)
  have f: "handlers ?s' = handlers s"
    by simp
  from r cs n f tok show "\<exists>s'. handleChange e n c s = Some s' \<and>
         calls_since s s' =
           Hook (hook_for (c_operationType c)) (to_event c) (resumeToken s') #
           event_calls e (to_event c) (resumeToken s') (handlers s) \<and>
         notified (calls_since s s') = handlers s \<and> handlers s' = handlers s"
    by metis
qed

theorem onEvent_failure_isolated_witness:
  "map (\<lambda>h. unregisters (onEvent failing_handler h (to_event insert_change)))
      (handlers (register_all [1, 2] (new_engine no_options))) = [[], []] \<and>
   hook failing_handler (hook_for (c_operationType insert_change)) (to_event insert_change) = None \<and>
   throws (onEvent failing_handler 1 (to_event insert_change)) = Some ''handler failed'' \<and>
   map_option (calls_since (register_all [1, 2] (new_engine no_options)))
      (handleChange failing_handler 0 insert_change (register_all [1, 2] (new_engine no_options))) =
     Some [Hook HandleInsert insert_event (Some ''token123''),
        OnEvent 1 insert_event (Some ''token123''),
        Logger ErrorLevel ''Error in event handler'',
        OnEvent 2 insert_event (Some ''token123'')]"
proof -
  let ?s = "register_all [1, 2] (new_engine no_options)"
  have a: "\<forall>h \<in> set (handlers ?s). unregisters (onEvent failing_handler h (to_event insert_change)) = []"
    by code_simp
  have b: "hook failing_handler (hook_for (c_operationType insert_change)) (to_event insert_change) = None"
    by code_simp
  have c1: "map (\<lambda>h. unregisters (onEvent failing_handler h (to_event insert_change)))
      (handlers ?s) = [[], []]"
    by code_simp
  have c2: "throws (onEvent failing_handler 1 (to_event insert_change)) = Some ''handler failed''"
    by code_simp
  have c3: "to_event insert_change = insert_event"
    by code_simp
  have c4: "handlers ?s = [1, 2]"
    by code_simp
  have d: "event_calls failing_handler insert_event (Some ''token123'') [1, 2] =
      [OnEvent 1 insert_event (Some ''token123''),
       Logger ErrorLevel ''Error in event handler'',
       OnEvent 2 insert_event (Some ''token123'')]"
    by code_simp
  have k: "hook_for (c_operationType insert_change) = HandleInsert"
    by code_simp
  have g: "map_option getResumeToken (handleChange failing_handler 0 insert_change ?s) =
      Some (Some ''token123'')"
    by code_simp
  obtain s' where s': "handleChange failing_handler 0 insert_change ?s = Some s'"
    and cs: "calls_since ?s s' =
           Hook (hook_for (c_operationType insert_change)) (to_event insert_change) (resumeToken s') #
           event_calls failing_handler (to_event insert_change) (resumeToken s') (handlers ?s)"
    using onEvent_failure_isolated [of failing_handler insert_change 0 ?s insert_event] a b
    by blast
  have "resumeToken s' = Some ''token123''"
    using g s' by (simp add: getResumeToken_def)
  then have "calls_since ?s s' =
      [Hook HandleInsert insert_event (Some ''token123''),
       OnEvent 1 insert_event (Some ''token123''),
       Logger ErrorLevel ''Error in event handler'',
       OnEvent 2 insert_event (Some ''token123'')]"
    using cs by (simp only: c3 c4 d k)
  then have m: "map_option (calls_since ?s) (handleChange failing_handler 0 insert_change ?s) =
     Some [Hook HandleInsert insert_event (Some ''token123''),
        OnEvent 1 insert_event (Some ''token123''),
        Logger ErrorLevel ''Error in event handler'',
        OnEvent 2 insert_event (Some ''token123'')]"
    using s' by simp
  from c1 b c2 m show ?thesis by blast
qed

subsection \<open>C7\<close>

text \<open>
  C7. \<^verbatim>\<open>start()\<close> on an engine that is watching returns normally and calls
  \<^verbatim>\<open>model.watch\<close> no further time: after a first successful \<^verbatim>\<open>start()\<close> on a
  new engine the count of \<^verbatim>\<open>watch\<close> calls is 1 and stays 1. \<^verbatim>\<open>stop()\<close> on an engine
  that is not watching returns normally and calls \<^verbatim>\<open>close\<close> no further time. Both leave
  every field of the engine as it was.
\<close>

theorem start_stop_idempotent:
  "(watching s \<longrightarrow>
      fst (start e s) = None \<and>
      watch_calls (trace (snd (start e s))) = watch_calls (trace s) \<and>
      snd (start e s) = logger WarnLevel ''CDC service is already watching'' s) \<and>
   (watch_result e 0 = None \<longrightarrow>
      fst (start e (snd (start e (new_engine opts)))) = None \<and>
      length (watch_calls (trace (snd (start e (snd (start e (new_engine opts))))))) = 1) \<and>
   (\<not> watching s \<longrightarrow>
      fst (stop e s) = None \<and>
      close_calls (trace (snd (stop e s))) = close_calls (trace s) \<and>
      snd (stop e s) = logger WarnLevel ''CDC service is not watching'' s)"
proof -
  have a: "watching s \<longrightarrow>
      fst (start e s) = None \<and>
      watch_calls (trace (snd (start e s))) = watch_calls (trace s) \<and>
      snd (start e s) = logger WarnLevel ''CDC service is already watching'' s"
    by (simp add: start_def watch_calls_def)
  have b: "\<not> watching s \<longrightarrow>
      fst (stop e s) = None \<and>
      close_calls (trace (snd (stop e s))) = close_calls (trace s) \<and>
      snd (stop e s) = logger WarnLevel ''CDC service is not watching'' s"
    by (simp add: stop_def close_calls_def)
  have c: "watch_result e 0 = None \<longrightarrow>
      fst (start e (snd (start e (new_engine opts)))) = None \<and>
      length (watch_calls (trace (snd (start e (snd (start e (new_engine opts))))))) = 1"
    by (simp add: start_def new_engine_def watch_calls_def watch_call_def Let_def logger_def emit_def)
  from a b c show ?thesis by blast
qed

theorem start_stop_idempotent_witness:
  "watching (snd (start quiet (new_engine no_options))) \<and>
   fst (start quiet (snd (start quiet (new_engine no_options)))) = None \<and>
   length (watch_calls (trace (snd (start quiet (snd (start quiet (new_engine no_options))))))) = 1 \<and>
   \<not> watching (new_engine no_options) \<and>
   fst (stop quiet (new_engine no_options)) = None \<and>
   close_calls (trace (snd (stop quiet (new_engine no_options)))) = []"
  using start_stop_idempotent [of "snd (start quiet (new_engine no_options))" quiet no_options]
    start_stop_idempotent [of "new_engine no_options" quiet no_options]
  by code_simp

subsection \<open>C8\<close>

text \<open>
  C8, the claim as stated fails: after a notification with a token and a close signal,
  \<^verbatim>\<open>reconnect\<close> has written the token into \<^verbatim>\<open>cdcOptions.resumeAfter\<close>.
\<close>

theorem options_mutated_counterexample:
  "resumeAfter (cdcOptions watching_engine) = None \<and>
   map_option (\<lambda>s'. resumeAfter (cdcOptions s')) (handleClose quiet 1 watching_engine) =
     Some (Some ''token123'')"
  by code_simp

text \<open>
  C8, as amended. The only field of the options that an engine operation writes after
  construction is \<^verbatim>\<open>resumeAfter\<close>, and the only value written is the recorded resume
  position, by \<^verbatim>\<open>reconnect\<close>. \<^verbatim>\<open>start\<close>, \<^verbatim>\<open>stop\<close>, the registry operations and
  the dispatch to handlers write no field. Error handling, close handling and a
  notification whose hook throws write it when they reconnect.
\<close>

theorem options_only_resumeAfter_written:
  "cdcOptions (snd (start e s)) = cdcOptions s \<and>
   cdcOptions (snd (stop e s)) = cdcOptions s \<and>
   cdcOptions (registerHandler h s) = cdcOptions s \<and>
   cdcOptions (unregisterHandler h s) = cdcOptions s \<and>
   cdcOptions (notifyHandlers e ev s) = cdcOptions s \<and>
   (\<forall>s'. reconnect e n s = Some s' \<longrightarrow>
      cdcOptions s' = (case getResumeToken s of None \<Rightarrow> cdcOptions s
                       | Some t \<Rightarrow> (cdcOptions s)\<lparr>resumeAfter := Some t\<rparr>)) \<and>
   (\<forall>s'. handleError e n x s = Some s' \<longrightarrow>
      cdcOptions s' = cdcOptions s \<or>
      cdcOptions s' = (cdcOptions s)\<lparr>resumeAfter := getResumeToken s'\<rparr>) \<and>
   (\<forall>s'. handleClose e n s = Some s' \<longrightarrow>
      cdcOptions s' = cdcOptions s \<or>
      cdcOptions s' = (cdcOptions s)\<lparr>resumeAfter := getResumeToken s'\<rparr>) \<and>
   (\<forall>s'. handleChange e n c s = Some s' \<longrightarrow>
      cdcOptions s' = cdcOptions s \<or>
      cdcOptions s' = (cdcOptions s)\<lparr>resumeAfter := getResumeToken s'\<rparr>)"
proof -
  let ?T = "\<lambda>c::call. True"
  have carry: "cdcOptions (carry_token u) = cdcOptions u \<or>
      cdcOptions (carry_token u) = (cdcOptions u)\<lparr>resumeAfter := resumeToken u\<rparr>" for u
    by (simp add: carry_token_def split: option.splits)
  have 1: "cdcOptions (snd (start e s)) = cdcOptions s" using start_keeps by simp
  have 2: "cdcOptions (snd (stop e s)) = cdcOptions s" using stop_keeps by simp
  have 3: "cdcOptions (registerHandler h s) = cdcOptions s"
    by (simp add: registerHandler_def logger_def emit_def)
  have 4: "cdcOptions (unregisterHandler h s) = cdcOptions s"
    using frame_unregisterHandler [of s h] by (simp add: frame_def)
  have 5: "cdcOptions (notifyHandlers e ev s) = cdcOptions s"
    using frame_for_handlers [of s e "EventSignal ev" 0] by (simp add: frame_def notifyHandlers_def)
  have 6: "cdcOptions s' = (case getResumeToken s of None \<Rightarrow> cdcOptions s
                       | Some t \<Rightarrow> (cdcOptions s)\<lparr>resumeAfter := Some t\<rparr>)"
    if "reconnect e n s = Some s'" for s'
    using reconnect_adds [OF that, of ?T]
    by (simp add: carry_token_def getResumeToken_def split: option.splits)
  have 7: "cdcOptions s' = cdcOptions s \<or>
      cdcOptions s' = (cdcOptions s)\<lparr>resumeAfter := getResumeToken s'\<rparr>"
    if "handleError e n x s = Some s'" for s'
    using handleError_adds [OF that, of ?T] carry [of s] by (auto simp: getResumeToken_def)
  have 8: "cdcOptions s' = cdcOptions s \<or>
      cdcOptions s' = (cdcOptions s)\<lparr>resumeAfter := getResumeToken s'\<rparr>"
    if "handleClose e n s = Some s'" for s'
    using handleClose_adds [OF that, of ?T] carry [of s] by (auto simp: getResumeToken_def)
  have 9: "cdcOptions s' = cdcOptions s \<or>
      cdcOptions s' = (cdcOptions s)\<lparr>resumeAfter := getResumeToken s'\<rparr>"
    if "handleChange e n c s = Some s'" for s'
    using handleChange_adds [OF that, of ?T] carry [of "store_token c s"]
    by (auto simp: getResumeToken_def)
  from 1 2 3 4 5 6 7 8 9 show ?thesis by blast
qed

theorem options_only_resumeAfter_written_witness:
  "map_option cdcOptions (handleClose quiet 1 watching_engine) =
     Some ((cdcOptions watching_engine)\<lparr>resumeAfter := Some ''token123''\<rparr>) \<and>
   map_option cdcOptions (handleChange quiet 0 insert_change watching_engine) =
     Some (cdcOptions watching_engine)"
proof -
  have r: "handleClose quiet 1 watching_engine \<noteq> None" by code_simp
  then obtain s' where s': "handleClose quiet 1 watching_engine = Some s'" by blast
  have g: "map_option getResumeToken (handleClose quiet 1 watching_engine) = Some (Some ''token123'')"
    by code_simp
  have n: "map_option (\<lambda>s'. cdcOptions s' = cdcOptions watching_engine)
      (handleClose quiet 1 watching_engine) = Some False"
    by code_simp
  have v: "map_option cdcOptions (handleChange quiet 0 insert_change watching_engine) =
     Some (cdcOptions watching_engine)"
    by code_simp
  have "cdcOptions s' = cdcOptions watching_engine \<or>
      cdcOptions s' = (cdcOptions watching_engine)\<lparr>resumeAfter := getResumeToken s'\<rparr>"
    using options_only_resumeAfter_written [of quiet watching_engine 0 insert_event 1 "''x''" insert_change] s'
    by blast
  with s' g n v show ?thesis by auto
qed

subsection \<open>C9\<close>

text \<open>
  C9. The code breaks the first half of the claim. When the first handler of the registry
  unregisters itself in its \<^verbatim>\<open>onEvent\<close> and the handlers from the third on
  unregister nothing, the second handler is passed over: the handlers called are the
  first and those from the third on, and the second is still registered after the
  dispatch, against the docstring \<^verbatim>\<open>Notify all registered handlers\<close> of
  \<^verbatim>\<open>notifyHandlers\<close>. What holds whatever the callbacks unregister: the handlers
  called are a subsequence of the registry at the start of the dispatch, none twice when
  the registry holds none twice, and all of them when no callback unregisters a handler.
  The second half of the claim holds: a handler unregistered before a notification
  arrives is not called for it.
\<close>

theorem unregister_in_callback_skips_next:
  "(handlers s = h # h' # rest \<and> unregisters (onEvent e h ev) = [h] \<and>
    (\<forall>k \<in> set rest. unregisters (onEvent e k ev) = []) \<longrightarrow>
      notified (calls_since s (notifyHandlers e ev s)) = h # rest \<and>
      handlers (notifyHandlers e ev s) = h' # rest) \<and>
   subseq (notified (calls_since s (notifyHandlers e ev s))) (handlers s) \<and>
   ((\<forall>k \<in> set (handlers s). unregisters (onEvent e k ev) = []) \<longrightarrow>
      notified (calls_since s (notifyHandlers e ev s)) = handlers s) \<and>
   (distinct (handlers s) \<longrightarrow>
      distinct (notified (calls_since s (notifyHandlers e ev s))) \<and>
      g \<notin> set (handlers (unregisterHandler g s)) \<and>
      g \<notin> set (notified (calls_since (unregisterHandler g s)
                (notifyHandlers e ev (unregisterHandler g s)))))"
proof (intro conjI impI)
  assume "handlers s = h # h' # rest \<and> unregisters (onEvent e h ev) = [h] \<and>
    (\<forall>k \<in> set rest. unregisters (onEvent e k ev) = [])"
  then have "notified (calls_since s (notifyHandlers e ev s)) = h # rest \<and>
         handlers (notifyHandlers e ev s) = h' # rest"
    using notifyHandlers_head_leaves by blast
  then show "notified (calls_since s (notifyHandlers e ev s)) = h # rest"
    and "handlers (notifyHandlers e ev s) = h' # rest"
    by simp_all
next
  show "subseq (notified (calls_since s (notifyHandlers e ev s))) (handlers s)"
    by (rule notified_notifyHandlers)
next
  assume "distinct (handlers s)"
  with notified_notifyHandlers show "distinct (notified (calls_since s (notifyHandlers e ev s)))"
    by (rule distinct_subseq)
next
  assume "\<forall>k \<in> set (handlers s). unregisters (onEvent e k ev) = []"
  then have "notifyHandlers e ev s = s\<lparr>trace := trace s @ event_calls e ev (resumeToken s) (handlers s)\<rparr>"
    by (rule notifyHandlers_plain)
  then have "calls_since s (notifyHandlers e ev s) = event_calls e ev (resumeToken s) (handlers s)"
    by (simp add: calls_since_def)
  then show "notified (calls_since s (notifyHandlers e ev s)) = handlers s"
    by simp
next
  assume d: "distinct (handlers s)"
  let ?u = "unregisterHandler g s"
  show a: "g \<notin> set (handlers ?u)"
    using d by (simp add: handlers_unregisterHandler)
  have "set (notified (calls_since ?u (notifyHandlers e ev ?u))) \<subseteq> set (handlers ?u)"
    by (rule set_subseq [OF notified_notifyHandlers])
  with a show "g \<notin> set (notified (calls_since ?u (notifyHandlers e ev ?u)))"
    by blast
qed

theorem unregister_in_callback_skips_next_witness:
  "handlers (register_all [1, 2, 3] (new_engine no_options)) = [1, 2, 3] \<and>
   map (\<lambda>k. unregisters (onEvent leaving_handler k insert_event)) [1, 2, 3] = [[1], [], []] \<and>
   notified (calls_since (register_all [1, 2, 3] (new_engine no_options))
     (notifyHandlers leaving_handler insert_event (register_all [1, 2, 3] (new_engine no_options)))) = [1, 3] \<and>
   handlers (notifyHandlers leaving_handler insert_event
     (register_all [1, 2, 3] (new_engine no_options))) = [2, 3] \<and>
   notified (calls_since (register_all [1, 2, 3] (new_engine no_options))
     (notifyHandlers quiet insert_event (register_all [1, 2, 3] (new_engine no_options)))) = [1, 2, 3] \<and>
   notified (calls_since (unregisterHandler 2 (register_all [1, 2, 3] (new_engine no_options)))
     (notifyHandlers quiet insert_event
        (unregisterHandler 2 (register_all [1, 2, 3] (new_engine no_options))))) = [1, 3]"
proof -
  let ?s = "register_all [1, 2, 3] (new_engine no_options)"
  have hs: "handlers ?s = [1, 2, 3]" by code_simp
  have u1: "unregisters (onEvent leaving_handler 1 insert_event) = [1]" by code_simp
  have u3: "\<forall>k \<in> set [3]. unregisters (onEvent leaving_handler k insert_event) = []" by code_simp
  have m: "map (\<lambda>k. unregisters (onEvent leaving_handler k insert_event)) [1, 2, 3] = [[1], [], []]"
    by code_simp
  have q: "\<forall>k \<in> set (handlers ?s). unregisters (onEvent quiet k insert_event) = []" by code_simp
  have v: "notified (calls_since (unregisterHandler 2 ?s)
     (notifyHandlers quiet insert_event (unregisterHandler 2 ?s))) = [1, 3]"
    by code_simp
  have a: "notified (calls_since ?s (notifyHandlers leaving_handler insert_event ?s)) = [1, 3] \<and>
      handlers (notifyHandlers leaving_handler insert_event ?s) = [2, 3]"
    using unregister_in_callback_skips_next [of ?s 1 2 "[3]" leaving_handler insert_event] hs u1 u3
    by blast
  have b: "notified (calls_since ?s (notifyHandlers quiet insert_event ?s)) = handlers ?s"
    using unregister_in_callback_skips_next [of ?s 1 2 "[3]" quiet insert_event] q
    by blast
  from hs m a b v show ?thesis by simp
qed

subsection \<open>C10\<close>

text \<open>
  C10. Registering a handler that is already registered changes nothing. After any
  sequence of \<^verbatim>\<open>registerHandler\<close> calls on a new engine the registry holds every
  handler of the sequence once, and a notification reaches no handler twice, whatever the
  callbacks throw or unregister.
\<close>

theorem registerHandler_at_most_once:
  "registerHandler h (registerHandler h s) = registerHandler h s \<and>
   distinct (handlers (register_all hs (new_engine opts))) \<and>
   set (handlers (register_all hs (new_engine opts))) = set hs \<and>
   distinct (notified (calls_since (register_all hs (new_engine opts))
      (notifyHandlers e ev (register_all hs (new_engine opts)))))"
proof -
  let ?s = "register_all hs (new_engine opts)"
  have d: "distinct (handlers ?s)"
    by (rule distinct_register_all) (simp add: new_engine_def)
  have "set (handlers ?s) = set hs"
    by (simp add: set_register_all new_engine_def)
  moreover have "distinct (notified (calls_since ?s (notifyHandlers e ev ?s)))"
    using notified_notifyHandlers d by (rule distinct_subseq)
  ultimately show ?thesis
    using d by (simp add: registerHandler_twice)
qed

theorem registerHandler_at_most_once_witness:
  "handlers (register_all [7, 7, 8, 7] (new_engine no_options)) = [7, 8] \<and>
   notified (calls_since (register_all [7, 7, 8, 7] (new_engine no_options))
      (notifyHandlers quiet insert_event (register_all [7, 7, 8, 7] (new_engine no_options)))) = [7, 8]"
  using registerHandler_at_most_once [of 7 "new_engine no_options" "[7, 7, 8, 7]" no_options quiet insert_event]
  by code_simp

end
